theory Spec2Isabelle
  imports Complex_Main
begin

section \<open>Python values used by \<open>textattack/shared/attacked_text.py\<close>\<close>

text \<open>
  Python strings are modelled as \<open>string\<close> (a list of characters with code points below
  256), Python integers as \<open>int\<close>, a \<open>set\<close> of integers as \<open>int set\<close>, and a
  one-dimensional integer \<open>numpy\<close> array as \<open>int list\<close>. Every exception the module can
  raise is a constructor of \<open>error\<close>; a function that can raise returns \<open>error + 'a\<close>.
\<close>

datatype error = TypeError | ValueError | IndexError | AttributeError

subsection \<open>Sequences: indexing and slicing\<close>

text \<open>\<open>xs[i]\<close>: a negative index counts from the end; out of range raises \<open>IndexError\<close>.\<close>

definition py_nth :: "'a list \<Rightarrow> int \<Rightarrow> error + 'a" where
  "py_nth xs i =
     (if 0 \<le> i \<and> i < int (length xs) then Inr (xs ! nat i)
      else if i < 0 \<and> - int (length xs) \<le> i then Inr (xs ! nat (int (length xs) + i))
      else Inl IndexError)"

text \<open>The adjustment Python applies to a slice bound: add the length to a negative bound,
  then clamp into \<open>[0, len]\<close>.\<close>

definition slice_bound :: "nat \<Rightarrow> int \<Rightarrow> nat" where
  "slice_bound n i =
     (let j = (if i < 0 then i + int n else i)
      in if j < 0 then 0 else if j > int n then n else nat j)"

text \<open>\<open>xs[a:b]\<close>, \<open>xs[:b]\<close> and \<open>xs[a:]\<close>.\<close>

definition py_slice :: "'a list \<Rightarrow> int \<Rightarrow> int \<Rightarrow> 'a list" where
  "py_slice xs a b = drop (slice_bound (length xs) a) (take (slice_bound (length xs) b) xs)"

definition py_slice_to :: "'a list \<Rightarrow> int \<Rightarrow> 'a list" where
  "py_slice_to xs b = take (slice_bound (length xs) b) xs"

definition py_slice_from :: "'a list \<Rightarrow> int \<Rightarrow> 'a list" where
  "py_slice_from xs a = drop (slice_bound (length xs) a) xs"

subsection \<open>Strings\<close>

text \<open>\<open>str.isspace\<close> on one character: the code points below 256 that Python counts as
  white space.\<close>

definition is_space :: "char \<Rightarrow> bool" where
  "is_space c =
     (let k = of_char c :: nat
      in (9 \<le> k \<and> k \<le> 13) \<or> (28 \<le> k \<and> k \<le> 32) \<or> k = 133 \<or> k = 160)"

text \<open>\<open>s.strip()\<close>\<close>

definition strip :: "string \<Rightarrow> string" where
  "strip s = rev (dropWhile is_space (rev (dropWhile is_space s)))"

text \<open>\<open>c.lower()\<close> on one character: the capital letters below 256 are the ASCII ones
  and the code points 192 to 222 without the multiplication sign 215.\<close>

definition lower_char :: "char \<Rightarrow> char" where
  "lower_char c =
     (let k = of_char c :: nat
      in if (65 \<le> k \<and> k \<le> 90) \<or> (192 \<le> k \<and> k \<le> 222 \<and> k \<noteq> 215)
         then char_of (k + 32) else c)"

definition lower :: "string \<Rightarrow> string" where
  "lower s = map lower_char s"

text \<open>The ASCII letters, for the tokenizer below.\<close>

definition is_alpha :: "char \<Rightarrow> bool" where
  "is_alpha c =
     (let k = of_char c :: nat
      in (65 \<le> k \<and> k \<le> 90) \<or> (97 \<le> k \<and> k \<le> 122))"

text \<open>\<open>sep.join(xs)\<close>\<close>

fun join :: "string \<Rightarrow> string list \<Rightarrow> string" where
  "join sep [] = []"
| "join sep [x] = x"
| "join sep (x # y # ys) = x @ sep @ join sep (y # ys)"

text \<open>The offset of the first occurrence of \<open>sub\<close> in \<open>s\<close>, if there is one.\<close>

fun first_occurrence :: "string \<Rightarrow> string \<Rightarrow> nat option" where
  "first_occurrence sub [] = (if sub = [] then Some 0 else None)"
| "first_occurrence sub (c # cs) =
     (if take (length sub) (c # cs) = sub then Some 0
      else map_option Suc (first_occurrence sub cs))"

text \<open>\<open>s.index(sub)\<close>: the first occurrence, or \<open>ValueError\<close>.\<close>

definition str_index :: "string \<Rightarrow> string \<Rightarrow> error + nat" where
  "str_index s sub = (case first_occurrence sub s of None \<Rightarrow> Inl ValueError | Some k \<Rightarrow> Inr k)"

text \<open>\<open>s.find(sub, start)\<close>: a negative \<open>start\<close> counts from the end (and stops at 0); the
  result is the first occurrence at or after \<open>start\<close>, or \<open>-1\<close>.\<close>

definition str_find :: "string \<Rightarrow> string \<Rightarrow> int \<Rightarrow> int" where
  "str_find s sub start =
     (let n = int (length s);
          st = (if start < 0 then max 0 (start + n) else start)
      in if st > n then -1
         else (case first_occurrence sub (drop (nat st) s) of
                 None \<Rightarrow> -1
               | Some k \<Rightarrow> st + int k))"

text \<open>\<open>s.split(sep)\<close> for a non-empty separator: the pieces between the occurrences of
  \<open>sep\<close>, found from left to right without overlap. \<open>cur\<close> is the piece being read.\<close>

function split_loop :: "string \<Rightarrow> string \<Rightarrow> string \<Rightarrow> string list" where
  "split_loop sep cur s =
     (if s = [] then [cur]
      else if sep \<noteq> [] \<and> take (length sep) s = sep
           then cur # split_loop sep [] (drop (length sep) s)
      else split_loop sep (cur @ [hd s]) (tl s))"
  by pat_completeness auto
termination
  by (relation "measure (\<lambda>(sep, cur, s). length s)") auto

declare split_loop.simps [simp del]

definition split :: "string \<Rightarrow> string \<Rightarrow> string list" where
  "split s sep = split_loop sep [] s"

subsection \<open>The tokenizer\<close>

text \<open>
  Modelled from the spec: \<open>words_from_text\<close> of \<open>textattack/shared/utils\<close>, which is
  imported by the module and is not part of the sources. The spec describes it as the
  tokenizer "that splits raw text into a sequence of word strings", with
  \<open>"The quick fox jumps."\<close> giving \<open>[The, quick, fox, jumps]\<close>: the words are the maximal
  runs of letters, in order. The operations below take the tokenizer as a parameter
  \<open>wft\<close>; this definition is the instance used on concrete texts.
\<close>

fun words_from_text_loop :: "string \<Rightarrow> string \<Rightarrow> string list" where
  "words_from_text_loop word [] = (if word = [] then [] else [word])"
| "words_from_text_loop word (c # cs) =
     (if is_alpha c then words_from_text_loop (word @ [c]) cs
      else if word = [] then words_from_text_loop [] cs
      else word # words_from_text_loop [] cs)"

definition words_from_text :: "string \<Rightarrow> string list" where
  "words_from_text s = words_from_text_loop [] s"

section \<open>The class \<open>AttackedText\<close>\<close>

text \<open>
  An instance holds \<open>_text_input\<close> (an ordered dictionary from segment names to strings),
  \<open>words\<close>, and the dictionary \<open>attack_attrs\<close>. The dictionary is modelled by the four
  keys this module writes, each with the type the module gives it:
  \<open>original_index_map\<close> and \<open>modified_indices\<close> are present in every instance (the
  constructor sets them with \<open>setdefault\<close>); \<open>newly_modified_indices\<close> and
  \<open>previous_attacked_text\<close> are present only where \<open>replace_new_words\<close> (or the caller of
  the constructor) has put them, so they are options.
\<close>

datatype attacked_text =
  AttackedText
    (text_input: "(string \<times> string) list")
    (words: "string list")
    (original_index_map: "int list")
    (modified_indices: "int set")
    (newly_modified_indices: "int set option")
    (previous_attacked_text: "attacked_text option")

definition SPLIT_TOKEN :: string where
  "SPLIT_TOKEN = ''>>>>''"

text \<open>The property \<open>text\<close> (here \<open>text_of\<close>): the segments joined by a line break.\<close>

definition joined_text :: "(string \<times> string) list \<Rightarrow> string" where
  "joined_text ti = join [CHR 0x0A] (map snd ti)"

definition text_of :: "attacked_text \<Rightarrow> string" where
  "text_of s = joined_text (text_input s)"

subsection \<open>\<open>__init__\<close>\<close>

text \<open>The argument \<open>text_input\<close> is a string, an ordered dictionary, or something else;
  \<open>attack_attrs\<close> is \<open>None\<close>, a dictionary (each of the four keys present or not), or
  something else.\<close>

datatype text_input_arg =
  TextStr string
| TextDict "(string \<times> string) list"
| TextOther

datatype attack_attrs_arg =
  AttrsNone
| AttrsDict "int list option" "int set option" "int set option" "attacked_text option"
| AttrsOther

text \<open>\<open>np.arange(n)\<close>\<close>

definition arange :: "nat \<Rightarrow> int list" where
  "arange n = map int [0..<n]"

definition init :: "(string \<Rightarrow> string list) \<Rightarrow> text_input_arg \<Rightarrow> attack_attrs_arg
    \<Rightarrow> error + attacked_text" where
  "init wft text_input_a attack_attrs_a =
     (case (case text_input_a of
              TextStr t \<Rightarrow> Inr [(''text'', t)]
            | TextDict d \<Rightarrow> Inr d
            | TextOther \<Rightarrow> Inl TypeError) of
        Inl e \<Rightarrow> Inl e
      | Inr ti0 \<Rightarrow>
          let ti = map (\<lambda>(k, v). (k, strip v)) ti0;
              ws = wft (joined_text ti)
          in (case attack_attrs_a of
                AttrsNone \<Rightarrow> Inr (AttackedText ti ws (arange (length ws)) {} None None)
              | AttrsDict m mi nmi prev \<Rightarrow>
                  Inr (AttackedText ti ws
                         (case m of None \<Rightarrow> arange (length ws) | Some a \<Rightarrow> a)
                         (case mi of None \<Rightarrow> {} | Some x \<Rightarrow> x)
                         nmi prev)
              | AttrsOther \<Rightarrow> Inl TypeError))"

subsection \<open>\<open>replace_new_words\<close>\<close>

text \<open>The variables the loop of \<open>replace_new_words\<close> updates. The three bookkeeping
  fields are the entries of \<open>new_attack_attrs\<close>.\<close>

record rnw_state =
  perturbed_text :: string
  original_text :: string
  new_modified_indices :: "int set"
  new_newly_modified_indices :: "int set"
  new_original_index_map :: "int list"
  new_i :: int

text \<open>Lines 285 to 293: the members below \<open>i\<close> are kept, the member \<open>i\<close> is dropped,
  the members above are moved by \<open>num_words_diff\<close>.\<close>

definition shifted_modified_indices :: "int set \<Rightarrow> int \<Rightarrow> int \<Rightarrow> int set" where
  "shifted_modified_indices mi i num_words_diff =
     {m \<in> mi. m < i} \<union> (\<lambda>m. m + num_words_diff) ` {m \<in> mi. m > i}"

text \<open>Lines 296 to 300 on a copy of the array: the entries equal to \<open>i\<close> become \<open>-1\<close>
  when one word went away, then the entries above \<open>i\<close> are moved.\<close>

definition new_idx_map :: "int list \<Rightarrow> int \<Rightarrow> int \<Rightarrow> int list" where
  "new_idx_map m i num_words_diff =
     (let m1 = (if num_words_diff = -1 then map (\<lambda>v. if v = i then -1 else v) m else m)
      in map (\<lambda>v. if v > i then v + num_words_diff else v) m1)"

text \<open>Lines 302 to 306: one round for each word of the replacement.\<close>

fun mark_loop :: "nat \<Rightarrow> bool \<Rightarrow> int set \<times> int set \<times> int \<Rightarrow> int set \<times> int set \<times> int" where
  "mark_loop 0 changed acc = acc"
| "mark_loop (Suc k) changed (mi, nmi, ni) =
     mark_loop k changed
       (if changed then (insert ni mi, insert ni nmi, ni + 1) else (mi, nmi, ni + 1))"

text \<open>One round of the loop of line 274, for word number \<open>i\<close>.\<close>

definition rnw_step :: "(string \<Rightarrow> string list) \<Rightarrow> rnw_state \<Rightarrow> nat \<times> string \<times> string
    \<Rightarrow> error + rnw_state" where
  "rnw_step wft st x =
     (case x of (i, input_word, adv_word_seq) \<Rightarrow>
       (case str_index (original_text st) input_word of
          Inl e \<Rightarrow> Inl e
        | Inr word_start \<Rightarrow>
            let word_end = word_start + length input_word;
                perturbed = perturbed_text st @ take word_start (original_text st);
                original = drop word_end (original_text st);
                adv_num_words = length (wft adv_word_seq);
                num_words_diff = int adv_num_words - int (length (wft input_word));
                mi = (if num_words_diff \<noteq> 0
                      then shifted_modified_indices (new_modified_indices st) (int i) num_words_diff
                      else new_modified_indices st);
                m = (if num_words_diff \<noteq> 0
                     then new_idx_map (new_original_index_map st) (int i) num_words_diff
                     else new_original_index_map st);
                (mi', nmi', ni') =
                   mark_loop adv_num_words (input_word \<noteq> adv_word_seq)
                     (mi, new_newly_modified_indices st, new_i st);
                st' = st\<lparr>new_modified_indices := mi', new_newly_modified_indices := nmi',
                         new_original_index_map := m, new_i := ni'\<rparr>
            in if adv_num_words = 0 then
                 (if i = 0 then
                    (case original of
                       [] \<Rightarrow> Inl IndexError
                     | c # cs \<Rightarrow>
                         Inr (st'\<lparr>perturbed_text := perturbed @ adv_word_seq,
                                  original_text := (if c = CHR '' '' then cs else original)\<rparr>))
                  else
                    (if perturbed = [] then Inl IndexError
                     else Inr (st'\<lparr>perturbed_text :=
                                      (if last perturbed = CHR '' '' then butlast perturbed
                                       else perturbed) @ adv_word_seq,
                                    original_text := original\<rparr>)))
               else Inr (st'\<lparr>perturbed_text := perturbed @ adv_word_seq,
                              original_text := original\<rparr>)))"

fun rnw_loop :: "(string \<Rightarrow> string list) \<Rightarrow> rnw_state \<Rightarrow> (nat \<times> string \<times> string) list
    \<Rightarrow> error + rnw_state" where
  "rnw_loop wft st [] = Inr st"
| "rnw_loop wft st (x # xs) =
     (case rnw_step wft st x of Inl e \<Rightarrow> Inl e | Inr st' \<Rightarrow> rnw_loop wft st' xs)"

text \<open>\<open>enumerate(zip(self.words, new_words))\<close>\<close>

definition enumerate_zip :: "'a list \<Rightarrow> 'b list \<Rightarrow> (nat \<times> 'a \<times> 'b) list" where
  "enumerate_zip xs ys = zip [0..<min (length xs) (length ys)] (zip xs ys)"

text \<open>Lines 257 to 271: the variables before the loop. The entries of
  \<open>new_attack_attrs\<close> start as copies of the entries of \<open>self.attack_attrs\<close>.\<close>

definition rnw_state0 :: "attacked_text \<Rightarrow> rnw_state" where
  "rnw_state0 self =
     \<lparr>perturbed_text = [],
      original_text = join SPLIT_TOKEN (map snd (text_input self)),
      new_modified_indices = modified_indices self,
      new_newly_modified_indices = {},
      new_original_index_map = original_index_map self,
      new_i = 0\<rparr>"

definition replace_new_words :: "(string \<Rightarrow> string list) \<Rightarrow> attacked_text \<Rightarrow> string list
    \<Rightarrow> error + attacked_text" where
  "replace_new_words wft self new_words =
     (case rnw_loop wft (rnw_state0 self) (enumerate_zip (words self) new_words) of
        Inl e \<Rightarrow> Inl e
      | Inr st \<Rightarrow>
          let perturbed_input_texts = split (perturbed_text st @ original_text st) SPLIT_TOKEN;
              perturbed_input = zip (map fst (text_input self)) perturbed_input_texts
          in init wft (TextDict perturbed_input)
               (AttrsDict (Some (new_original_index_map st))
                          (Some (new_modified_indices st))
                          (Some (new_newly_modified_indices st))
                          (Some self)))"

subsection \<open>\<open>replace_words_at_indices\<close> and its callers\<close>

text \<open>An index argument is an \<open>int\<close>, or a value that \<open>int(i)\<close> converts, or a value on
  which \<open>int(i)\<close> raises; a replacement is a string or not.\<close>

datatype index_arg = IsInt int | ConvertsToInt int | NotInt

datatype word_arg = IsStr string | NotStr

text \<open>\<open>xs[i] = v\<close> on a list: a negative index counts from the end; out of range raises
  \<open>IndexError\<close>.\<close>

definition list_assign :: "'a list \<Rightarrow> int \<Rightarrow> 'a \<Rightarrow> error + 'a list" where
  "list_assign xs i v =
     (if 0 \<le> i \<and> i < int (length xs) then Inr (xs[nat i := v])
      else if i < 0 \<and> - int (length xs) \<le> i then Inr (xs[nat (int (length xs) + i) := v])
      else Inl IndexError)"

text \<open>Lines 202 to 208 (and 222 to 228): an index that is not an \<open>int\<close> is converted,
  and \<open>TypeError\<close> is raised when the conversion fails.\<close>

definition to_int :: "index_arg \<Rightarrow> error + int" where
  "to_int ia = (case ia of IsInt i \<Rightarrow> Inr i | ConvertsToInt i \<Rightarrow> Inr i | NotInt \<Rightarrow> Inl TypeError)"

fun rwai_loop :: "string list \<Rightarrow> (index_arg \<times> word_arg) list \<Rightarrow> error + string list" where
  "rwai_loop ws [] = Inr ws"
| "rwai_loop ws ((ia, wa) # rest) =
     (case to_int ia of
        Inl e \<Rightarrow> Inl e
      | Inr i \<Rightarrow>
          (case wa of
             NotStr \<Rightarrow> Inl TypeError
           | IsStr new_word \<Rightarrow>
               if i < 0 \<or> i > int (length ws) then Inl ValueError
               else (case list_assign ws i new_word of
                       Inl e \<Rightarrow> Inl e
                     | Inr ws' \<Rightarrow> rwai_loop ws' rest)))"

definition replace_words_at_indices :: "(string \<Rightarrow> string list) \<Rightarrow> attacked_text
    \<Rightarrow> index_arg list \<Rightarrow> word_arg list \<Rightarrow> error + attacked_text" where
  "replace_words_at_indices wft self indices new_words =
     (if length indices \<noteq> length new_words then Inl ValueError
      else (case rwai_loop (words self) (zip indices new_words) of
              Inl e \<Rightarrow> Inl e
            | Inr ws \<Rightarrow> replace_new_words wft self ws))"

definition replace_word_at_index :: "(string \<Rightarrow> string list) \<Rightarrow> attacked_text
    \<Rightarrow> index_arg \<Rightarrow> word_arg \<Rightarrow> error + attacked_text" where
  "replace_word_at_index wft self index new_word =
     (case to_int index of
        Inl e \<Rightarrow> Inl e
      | Inr i \<Rightarrow>
          (case new_word of
             NotStr \<Rightarrow> Inl TypeError
           | IsStr w \<Rightarrow> replace_words_at_indices wft self [IsInt i] [IsStr w]))"

definition delete_word_at_index :: "(string \<Rightarrow> string list) \<Rightarrow> attacked_text
    \<Rightarrow> index_arg \<Rightarrow> error + attacked_text" where
  "delete_word_at_index wft self index = replace_word_at_index wft self index (IsStr [])"

subsection \<open>\<open>get_deletion_indices\<close>\<close>

text \<open>The entries of the index map that are \<open>-1\<close> (a boolean mask on the array).\<close>

definition get_deletion_indices :: "attacked_text \<Rightarrow> int list" where
  "get_deletion_indices self = filter (\<lambda>v. v = -1) (original_index_map self)"

subsection \<open>\<open>__eq__\<close>\<close>

text \<open>Two arrays are compared by shape and then element by element.\<close>

definition ndarray_eq :: "int list \<Rightarrow> int list \<Rightarrow> bool" where
  "ndarray_eq a b = (length a = length b \<and> list_all (\<lambda>(x, y). x = y) (zip a b))"

text \<open>
  The loop of \<open>__eq__\<close> runs over the keys of \<open>self.attack_attrs\<close> only: a key of \<open>self\<close>
  that \<open>other\<close> lacks gives \<open>False\<close>, a key that only \<open>other\<close> has is never looked at.
  The value under \<open>previous_attacked_text\<close> is an \<open>AttackedText\<close>, so comparing it calls
  \<open>__eq__\<close> again.
\<close>

fun attacked_text_eq :: "attacked_text \<Rightarrow> attacked_text \<Rightarrow> bool" where
  "attacked_text_eq (AttackedText ti ws m mi nmi prev) other =
     (if \<not> (joined_text ti = text_of other) then False
      else
        (case nmi of
           None \<Rightarrow> True
         | Some a \<Rightarrow> (case newly_modified_indices other of None \<Rightarrow> False | Some b \<Rightarrow> a = b))
        \<and> (case prev of
             None \<Rightarrow> True
           | Some p \<Rightarrow>
               (case previous_attacked_text other of
                  None \<Rightarrow> False
                | Some q \<Rightarrow> attacked_text_eq p q))
        \<and> mi = modified_indices other
        \<and> ndarray_eq m (original_index_map other))"

subsection \<open>The span locator and the text window\<close>

text \<open>\<open>_text_index_of_word_index\<close>: each word up to \<open>i\<close> is searched, in the lower-cased
  text, from the place where the word before it was found.\<close>

definition text_index_of_word_index :: "attacked_text \<Rightarrow> int \<Rightarrow> int" where
  "text_index_of_word_index self i =
     (let pre_words = py_slice_to (words self) (i + 1);
          lower_text = lower (text_of self)
      in fold (\<lambda>word look_after_index. str_find lower_text (lower word) look_after_index)
           pre_words 0)"

definition text_until_word_index :: "attacked_text \<Rightarrow> int \<Rightarrow> string" where
  "text_until_word_index self i =
     py_slice_to (text_of self) (text_index_of_word_index self i)"

definition text_after_word_index :: "attacked_text \<Rightarrow> int \<Rightarrow> error + string" where
  "text_after_word_index self i =
     (case py_nth (words self) i of
        Inl e \<Rightarrow> Inl e
      | Inr w \<Rightarrow>
          Inr (py_slice_from (text_of self) (text_index_of_word_index self i + int (length w))))"

text \<open>
  The word window of \<open>text_window_around_index\<close>, lines 98 to 108. \<open>half_size\<close> is a
  float in the source, \<open>(window_size - 1) / 2.0\<close>; it is a real number here (the two
  agree as long as the integers are below \<open>2 ^ 53\<close>).
\<close>

definition word_window :: "int \<Rightarrow> int \<Rightarrow> int \<Rightarrow> int \<times> int" where
  "word_window len index window_size =
     (let half_size = real_of_int (window_size - 1) / 2
      in if real_of_int index - half_size < 0
           then (0, min (window_size - 1) (len - 1))
         else if real_of_int index + half_size \<ge> real_of_int len
           then (max 0 (len - window_size), len - 1)
         else (index - \<lceil>half_size\<rceil>, index + \<lfloor>half_size\<rfloor>))"

definition text_window_around_index :: "attacked_text \<Rightarrow> int \<Rightarrow> int \<Rightarrow> error + string" where
  "text_window_around_index self index window_size =
     (case word_window (int (length (words self))) index window_size of
        (wstart, wend) \<Rightarrow>
          let text_idx_start = text_index_of_word_index self wstart
          in (case py_nth (words self) wend of
                Inl e \<Rightarrow> Inl e
              | Inr w \<Rightarrow>
                  let text_idx_end = text_index_of_word_index self wend + int (length w)
                  in Inr (py_slice (text_of self) text_idx_start text_idx_end)))"

subsection \<open>\<open>first_word_diff\<close>\<close>

text \<open>The loop over \<open>range(min(len(w1), len(w2)))\<close>; the result \<open>None\<close> of the source is
  \<open>None\<close> here.\<close>

fun first_word_diff_loop :: "string list \<Rightarrow> string list \<Rightarrow> nat list \<Rightarrow> string list option" where
  "first_word_diff_loop w1 w2 [] = None"
| "first_word_diff_loop w1 w2 (i # rest) =
     (if w1 ! i \<noteq> w2 ! i then Some w1 else first_word_diff_loop w1 w2 rest)"

definition first_word_diff :: "attacked_text \<Rightarrow> attacked_text \<Rightarrow> string list option" where
  "first_word_diff self other_attacked_text =
     (let w1 = words self; w2 = words other_attacked_text
      in first_word_diff_loop w1 w2 [0..<min (length w1) (length w2)])"

section \<open>The rewrite on a store of objects\<close>

text \<open>
  The lists, sets and arrays of the module are mutable objects, and a snapshot refers to
  them. To say what a call does to the objects of its input, the rewrite is given a second
  time over an explicit store: a reference is a position in the store, creating an object
  appends it, and every assignment into a list, \<open>add\<close> on a set or masked assignment on
  an array of the source is an update of the store at the reference the source uses. A
  snapshot object holds its \<open>_text_input\<close> (strings, which are immutable) and the
  references of its words and of the values of its attack attributes. The dictionary
  \<open>new_attack_attrs\<close> of \<open>replace_new_words\<close> is created empty in line 259 and is
  reachable only from a local variable until the constructor stores it, so its entries are
  kept as the references in the state of the loop. An object of the wrong kind under a
  reference gives \<open>AttributeError\<close>.
\<close>

type_synonym ref = nat

datatype obj =
  ListObj "string list"
| SetObj "int set"
| ArrayObj "int list"
| TextObj
    (obj_text_input: "(string \<times> string) list")
    (words_ref: ref)
    (original_index_map_ref: ref)
    (modified_indices_ref: ref)
    (newly_modified_indices_ref: "ref option")
    (previous_attacked_text_ref: "ref option")

type_synonym store = "obj list"

definition new_obj :: "store \<Rightarrow> obj \<Rightarrow> store \<times> ref" where
  "new_obj h ob = (h @ [ob], length h)"

definition get_list :: "store \<Rightarrow> ref \<Rightarrow> error + string list" where
  "get_list h r =
     (if r < length h then (case h ! r of ListObj ws \<Rightarrow> Inr ws | _ \<Rightarrow> Inl AttributeError)
      else Inl AttributeError)"

definition get_set :: "store \<Rightarrow> ref \<Rightarrow> error + int set" where
  "get_set h r =
     (if r < length h then (case h ! r of SetObj x \<Rightarrow> Inr x | _ \<Rightarrow> Inl AttributeError)
      else Inl AttributeError)"

definition get_array :: "store \<Rightarrow> ref \<Rightarrow> error + int list" where
  "get_array h r =
     (if r < length h then (case h ! r of ArrayObj a \<Rightarrow> Inr a | _ \<Rightarrow> Inl AttributeError)
      else Inl AttributeError)"

definition get_text :: "store \<Rightarrow> ref \<Rightarrow> error + obj" where
  "get_text h r =
     (if r < length h
      then (case h ! r of
              TextObj ti wr mr mir nmir prev \<Rightarrow> Inr (TextObj ti wr mr mir nmir prev)
            | _ \<Rightarrow> Inl AttributeError)
      else Inl AttributeError)"

text \<open>\<open>x.add(v)\<close> on the set under \<open>r\<close>.\<close>

definition set_add :: "store \<Rightarrow> ref \<Rightarrow> int \<Rightarrow> error + store" where
  "set_add h r v =
     (case get_set h r of Inl e \<Rightarrow> Inl e | Inr x \<Rightarrow> Inr (h[r := SetObj (insert v x)]))"

subsection \<open>\<open>__init__\<close> on the store\<close>

text \<open>The dictionary given as \<open>attack_attrs\<close> holds references. The defaults of the two
  \<open>setdefault\<close> calls are created before the call looks at the dictionary.\<close>

datatype attack_attrs_ref_arg =
  AttrsNoneRef
| AttrsDictRef "ref option" "ref option" "ref option" "ref option"
| AttrsOtherRef

definition init_st :: "(string \<Rightarrow> string list) \<Rightarrow> store \<Rightarrow> text_input_arg
    \<Rightarrow> attack_attrs_ref_arg \<Rightarrow> store \<times> (error + ref)" where
  "init_st wft h text_input_a attack_attrs_a =
     (case (case text_input_a of
              TextStr t \<Rightarrow> Inr [(''text'', t)]
            | TextDict d \<Rightarrow> Inr d
            | TextOther \<Rightarrow> Inl TypeError) of
        Inl e \<Rightarrow> (h, Inl e)
      | Inr ti0 \<Rightarrow>
          let ti = map (\<lambda>(k, v). (k, strip v)) ti0;
              (h1, wr) = new_obj h (ListObj (wft (joined_text ti)))
          in (case (case attack_attrs_a of
                      AttrsNoneRef \<Rightarrow> Inr (None, None, None, None)
                    | AttrsDictRef m mi nmi prev \<Rightarrow> Inr (m, mi, nmi, prev)
                    | AttrsOtherRef \<Rightarrow> Inl TypeError) of
                Inl e \<Rightarrow> (h1, Inl e)
              | Inr (m, mi, nmi, prev) \<Rightarrow>
                  (case get_list h1 wr of
                     Inl e \<Rightarrow> (h1, Inl e)
                   | Inr ws \<Rightarrow>
                       let (h2, m_default) = new_obj h1 (ArrayObj (arange (length ws)));
                           (h3, mi_default) = new_obj h2 (SetObj {});
                           (h4, r) = new_obj h3
                             (TextObj ti wr
                                (case m of None \<Rightarrow> m_default | Some a \<Rightarrow> a)
                                (case mi of None \<Rightarrow> mi_default | Some a \<Rightarrow> a)
                                nmi prev)
                       in (h4, Inr r))))"

subsection \<open>\<open>replace_new_words\<close> on the store\<close>

record rnw_refs =
  st_perturbed_text :: string
  st_original_text :: string
  st_modified_indices :: ref
  st_newly_modified_indices :: ref
  st_original_index_map :: ref
  st_new_i :: int

text \<open>Lines 285 to 300: a new set receives the shifted members and replaces the entry
  \<open>modified_indices\<close>; a copy of the array is changed in place and replaces the entry
  \<open>original_index_map\<close>.\<close>

definition shift_st :: "store \<Rightarrow> rnw_refs \<Rightarrow> int \<Rightarrow> int \<Rightarrow> store \<times> (error + rnw_refs)" where
  "shift_st h st i num_words_diff =
     (let (h1, shifted) = new_obj h (SetObj {})
      in case get_set h1 (st_modified_indices st) of
           Inl e \<Rightarrow> (h1, Inl e)
         | Inr mi \<Rightarrow>
             let h2 = h1[shifted := SetObj (shifted_modified_indices mi i num_words_diff)]
             in (case get_array h2 (st_original_index_map st) of
                   Inl e \<Rightarrow> (h2, Inl e)
                 | Inr m \<Rightarrow>
                     let (h3, idx_map) = new_obj h2 (ArrayObj m);
                         m1 = (if num_words_diff = -1
                               then map (\<lambda>v. if v = i then -1 else v) m else m);
                         h4 = (if num_words_diff = -1 then h3[idx_map := ArrayObj m1] else h3);
                         h5 = h4[idx_map :=
                                   ArrayObj (map (\<lambda>v. if v > i then v + num_words_diff else v) m1)]
                     in (h5, Inr (st\<lparr>st_modified_indices := shifted,
                                      st_original_index_map := idx_map\<rparr>))))"

text \<open>Lines 302 to 306: \<open>add\<close> on the sets that the two entries refer to.\<close>

fun mark_loop_st :: "nat \<Rightarrow> bool \<Rightarrow> store \<Rightarrow> ref \<Rightarrow> ref \<Rightarrow> int \<Rightarrow> store \<times> (error + int)" where
  "mark_loop_st 0 changed h mi nmi ni = (h, Inr ni)"
| "mark_loop_st (Suc k) changed h mi nmi ni =
     (if changed then
        (case set_add h mi ni of
           Inl e \<Rightarrow> (h, Inl e)
         | Inr h1 \<Rightarrow>
             (case set_add h1 nmi ni of
                Inl e \<Rightarrow> (h1, Inl e)
              | Inr h2 \<Rightarrow> mark_loop_st k changed h2 mi nmi (ni + 1)))
      else mark_loop_st k changed h mi nmi (ni + 1))"

definition rnw_step_st :: "(string \<Rightarrow> string list) \<Rightarrow> store \<Rightarrow> rnw_refs
    \<Rightarrow> nat \<times> string \<times> string \<Rightarrow> store \<times> (error + rnw_refs)" where
  "rnw_step_st wft h st x =
     (case x of (i, input_word, adv_word_seq) \<Rightarrow>
       (case str_index (st_original_text st) input_word of
          Inl e \<Rightarrow> (h, Inl e)
        | Inr word_start \<Rightarrow>
            let word_end = word_start + length input_word;
                perturbed = st_perturbed_text st @ take word_start (st_original_text st);
                original = drop word_end (st_original_text st);
                adv_num_words = length (wft adv_word_seq);
                num_words_diff = int adv_num_words - int (length (wft input_word))
            in (case (if num_words_diff \<noteq> 0 then shift_st h st (int i) num_words_diff
                      else (h, Inr st)) of
                  (h1, Inl e) \<Rightarrow> (h1, Inl e)
                | (h1, Inr st1) \<Rightarrow>
                    (case mark_loop_st adv_num_words (input_word \<noteq> adv_word_seq) h1
                            (st_modified_indices st1) (st_newly_modified_indices st1)
                            (st_new_i st1) of
                       (h2, Inl e) \<Rightarrow> (h2, Inl e)
                     | (h2, Inr ni') \<Rightarrow>
                         let st' = st1\<lparr>st_new_i := ni'\<rparr>
                         in if adv_num_words = 0 then
                              (if i = 0 then
                                 (case original of
                                    [] \<Rightarrow> (h2, Inl IndexError)
                                  | c # cs \<Rightarrow>
                                      (h2, Inr (st'\<lparr>st_perturbed_text := perturbed @ adv_word_seq,
                                                    st_original_text :=
                                                      (if c = CHR '' '' then cs else original)\<rparr>)))
                               else
                                 (if perturbed = [] then (h2, Inl IndexError)
                                  else (h2, Inr (st'\<lparr>st_perturbed_text :=
                                                       (if last perturbed = CHR '' ''
                                                        then butlast perturbed
                                                        else perturbed) @ adv_word_seq,
                                                     st_original_text := original\<rparr>))))
                            else (h2, Inr (st'\<lparr>st_perturbed_text := perturbed @ adv_word_seq,
                                               st_original_text := original\<rparr>))))))"

fun rnw_loop_st :: "(string \<Rightarrow> string list) \<Rightarrow> store \<Rightarrow> rnw_refs
    \<Rightarrow> (nat \<times> string \<times> string) list \<Rightarrow> store \<times> (error + rnw_refs)" where
  "rnw_loop_st wft h st [] = (h, Inr st)"
| "rnw_loop_st wft h st (x # xs) =
     (case rnw_step_st wft h st x of
        (h1, Inl e) \<Rightarrow> (h1, Inl e)
      | (h1, Inr st') \<Rightarrow> rnw_loop_st wft h1 st' xs)"

text \<open>\<open>self\<close> and \<open>new_words\<close> are references. Lines 260 to 270 create the set of the
  newly modified indices and the copies of the set and of the array of \<open>self\<close>.\<close>

definition replace_new_words_st :: "(string \<Rightarrow> string list) \<Rightarrow> store \<Rightarrow> ref \<Rightarrow> ref
    \<Rightarrow> store \<times> (error + ref)" where
  "replace_new_words_st wft h self new_words =
     (case get_text h self of
        Inl e \<Rightarrow> (h, Inl e)
      | Inr me \<Rightarrow>
          let (h1, nmi) = new_obj h (SetObj {})
          in (case get_set h1 (modified_indices_ref me) of
                Inl e \<Rightarrow> (h1, Inl e)
              | Inr mi_self \<Rightarrow>
                  let (h2, mi) = new_obj h1 (SetObj mi_self)
                  in (case get_array h2 (original_index_map_ref me) of
                        Inl e \<Rightarrow> (h2, Inl e)
                      | Inr m_self \<Rightarrow>
                          let (h3, m) = new_obj h2 (ArrayObj m_self)
                          in (case get_list h3 (words_ref me) of
                                Inl e \<Rightarrow> (h3, Inl e)
                              | Inr ws \<Rightarrow>
                                  (case get_list h3 new_words of
                                     Inl e \<Rightarrow> (h3, Inl e)
                                   | Inr nws \<Rightarrow>
                                       (case rnw_loop_st wft h3
                                               \<lparr>st_perturbed_text = [],
                                                st_original_text =
                                                  join SPLIT_TOKEN (map snd (obj_text_input me)),
                                                st_modified_indices = mi,
                                                st_newly_modified_indices = nmi,
                                                st_original_index_map = m,
                                                st_new_i = 0\<rparr>
                                               (enumerate_zip ws nws) of
                                          (h4, Inl e) \<Rightarrow> (h4, Inl e)
                                        | (h4, Inr st) \<Rightarrow>
                                            let perturbed_input_texts =
                                                  split (st_perturbed_text st @ st_original_text st)
                                                    SPLIT_TOKEN;
                                                perturbed_input =
                                                  zip (map fst (obj_text_input me))
                                                    perturbed_input_texts
                                            in init_st wft h4 (TextDict perturbed_input)
                                                 (AttrsDictRef
                                                    (Some (st_original_index_map st))
                                                    (Some (st_modified_indices st))
                                                    (Some (st_newly_modified_indices st))
                                                    (Some self))))))))"

subsection \<open>\<open>replace_words_at_indices\<close> on the store\<close>

text \<open>\<open>words\<close> is the reference of the copy \<open>self.words[:]\<close>; line 215 assigns into
  it.\<close>

fun rwai_loop_st :: "store \<Rightarrow> ref \<Rightarrow> (index_arg \<times> word_arg) list \<Rightarrow> store \<times> (error + unit)" where
  "rwai_loop_st h words_r [] = (h, Inr ())"
| "rwai_loop_st h words_r ((ia, wa) # rest) =
     (case to_int ia of
        Inl e \<Rightarrow> (h, Inl e)
      | Inr i \<Rightarrow>
          (case wa of
             NotStr \<Rightarrow> (h, Inl TypeError)
           | IsStr new_word \<Rightarrow>
               (case get_list h words_r of
                  Inl e \<Rightarrow> (h, Inl e)
                | Inr ws \<Rightarrow>
                    if i < 0 \<or> i > int (length ws) then (h, Inl ValueError)
                    else (case list_assign ws i new_word of
                            Inl e \<Rightarrow> (h, Inl e)
                          | Inr ws' \<Rightarrow> rwai_loop_st (h[words_r := ListObj ws']) words_r rest))))"

definition replace_words_at_indices_st :: "(string \<Rightarrow> string list) \<Rightarrow> store \<Rightarrow> ref
    \<Rightarrow> index_arg list \<Rightarrow> word_arg list \<Rightarrow> store \<times> (error + ref)" where
  "replace_words_at_indices_st wft h self indices new_words =
     (if length indices \<noteq> length new_words then (h, Inl ValueError)
      else (case get_text h self of
              Inl e \<Rightarrow> (h, Inl e)
            | Inr me \<Rightarrow>
                (case get_list h (words_ref me) of
                   Inl e \<Rightarrow> (h, Inl e)
                 | Inr ws \<Rightarrow>
                     let (h1, words_r) = new_obj h (ListObj ws)
                     in (case rwai_loop_st h1 words_r (zip indices new_words) of
                           (h2, Inl e) \<Rightarrow> (h2, Inl e)
                         | (h2, Inr u) \<Rightarrow> replace_new_words_st wft h2 self words_r))))"

subsection \<open>Reading a snapshot from the store\<close>

text \<open>What a caller sees of a snapshot: its joined text, its words, its index map and
  its modified indices, when the references of the object lead to objects of the right
  kind.\<close>

definition view :: "store \<Rightarrow> ref \<Rightarrow> (string \<times> string list \<times> int list \<times> int set) option" where
  "view h r =
     (case get_text h r of
        Inl e \<Rightarrow> None
      | Inr me \<Rightarrow>
          (case (get_list h (words_ref me), get_array h (original_index_map_ref me),
                 get_set h (modified_indices_ref me)) of
             (Inr ws, Inr m, Inr mi) \<Rightarrow> Some (joined_text (obj_text_input me), ws, m, mi)
           | _ \<Rightarrow> None))"

text \<open>The snapshot, as a value, that a reference stands for: the objects under its
  references, and the snapshot its \<open>previous_attacked_text\<close> stands for. A snapshot is
  created after the one it was derived from, so that one has a smaller reference.\<close>

definition opt_set_at :: "store \<Rightarrow> ref option \<Rightarrow> int set option option" where
  "opt_set_at h ro =
     (case ro of
        None \<Rightarrow> Some None
      | Some a \<Rightarrow> (case get_set h a of Inl e \<Rightarrow> None | Inr x \<Rightarrow> Some (Some x)))"

function snapshot_at :: "store \<Rightarrow> ref \<Rightarrow> attacked_text option" where
  "snapshot_at h r =
     (case get_text h r of
        Inl e \<Rightarrow> None
      | Inr me \<Rightarrow>
          (case (get_list h (words_ref me), get_array h (original_index_map_ref me),
                 get_set h (modified_indices_ref me),
                 opt_set_at h (newly_modified_indices_ref me)) of
             (Inr ws, Inr m, Inr mi, Some nmi) \<Rightarrow>
               (case previous_attacked_text_ref me of
                  None \<Rightarrow> Some (AttackedText (obj_text_input me) ws m mi nmi None)
                | Some p \<Rightarrow>
                    if p < r
                    then (case snapshot_at h p of
                            None \<Rightarrow> None
                          | Some sp \<Rightarrow>
                              Some (AttackedText (obj_text_input me) ws m mi nmi (Some sp)))
                    else None)
           | _ \<Rightarrow> None))"
  by pat_completeness auto
termination
  by (relation "measure snd") auto

declare snapshot_at.simps [simp del]

text \<open>The store that holds the root snapshot of \<open>"The quick fox jumps."\<close> under the
  reference 3.\<close>

definition quick_fox_store :: store where
  "quick_fox_store =
     [ListObj [''The'', ''quick'', ''fox'', ''jumps''],
      ArrayObj [0, 1, 2, 3],
      SetObj {},
      TextObj [(''text'', ''The quick fox jumps.'')] 0 1 2 None None]"

section \<open>Notions used to state the properties\<close>

text \<open>A chain of rewrites: each list of new words is given to \<open>replace_new_words\<close> of the
  snapshot the rewrite before it returned.\<close>

fun rewrite_chain :: "(string \<Rightarrow> string list) \<Rightarrow> attacked_text \<Rightarrow> string list list
    \<Rightarrow> error + attacked_text" where
  "rewrite_chain wft s [] = Inr s"
| "rewrite_chain wft s (new_words # rest) =
     (case replace_new_words wft s new_words of
        Inl e \<Rightarrow> Inl e
      | Inr s' \<Rightarrow> rewrite_chain wft s' rest)"

text \<open>The words are found one after the other in a text: each is searched, as
  \<open>str.index\<close> does, in what is left after the word before it.\<close>

fun words_found_in_order :: "string list \<Rightarrow> string \<Rightarrow> bool" where
  "words_found_in_order [] s = True"
| "words_found_in_order (w # ws) s =
     (case first_occurrence w s of
        None \<Rightarrow> False
      | Some k \<Rightarrow> words_found_in_order ws (drop (k + length w) s))"

text \<open>The segments, joined by the split token and split at it again, are the segments
  (so no occurrence of the token is made of characters of the segments).\<close>

definition segments_split_back :: "(string \<times> string) list \<Rightarrow> bool" where
  "segments_split_back ti =
     (zip (map fst ti) (split (join SPLIT_TOKEN (map snd ti)) SPLIT_TOKEN) = ti)"

text \<open>The identity edit list of a snapshot: one edit per word, each word replaced by
  itself.\<close>

definition identity_indices :: "attacked_text \<Rightarrow> index_arg list" where
  "identity_indices s = map (\<lambda>i. IsInt (int i)) [0..<length (words s)]"

definition identity_words :: "attacked_text \<Rightarrow> word_arg list" where
  "identity_words s = map IsStr (words s)"

text \<open>The references in the state of the loop on the store are at or above \<open>n\<close>.\<close>

definition fresh_refs :: "nat \<Rightarrow> rnw_refs \<Rightarrow> bool" where
  "fresh_refs n st =
     (n \<le> st_modified_indices st \<and> n \<le> st_newly_modified_indices st \<and>
      n \<le> st_original_index_map st)"

text \<open>A store extends another: it is at least as long and agrees with it on all its
  references.\<close>

definition extends :: "store \<Rightarrow> store \<Rightarrow> bool" where
  "extends h h' = (length h \<le> length h' \<and> take (length h) h' = h)"

text \<open>The state of the loop on the store stands for a state of the loop on values: the
  texts and the counter are equal, and the sets and the array under the references are
  those of the state on values.\<close>

definition state_rel :: "store \<Rightarrow> rnw_refs \<Rightarrow> rnw_state \<Rightarrow> bool" where
  "state_rel h st pst =
     (st_perturbed_text st = perturbed_text pst \<and>
      st_original_text st = original_text pst \<and>
      st_new_i st = new_i pst \<and>
      get_set h (st_modified_indices st) = Inr (new_modified_indices pst) \<and>
      get_set h (st_newly_modified_indices st) = Inr (new_newly_modified_indices pst) \<and>
      get_array h (st_original_index_map st) = Inr (new_original_index_map pst) \<and>
      st_modified_indices st \<noteq> st_newly_modified_indices st)"

subsection \<open>Concrete snapshots\<close>

text \<open>The root snapshot of \<open>"The quick fox jumps."\<close>, and the snapshots the rewrites of
  the examples return.\<close>

definition quick_fox :: attacked_text where
  "quick_fox =
     AttackedText [(''text'', ''The quick fox jumps.'')]
       [''The'', ''quick'', ''fox'', ''jumps''] [0, 1, 2, 3] {} None None"

definition quick_fox_deleted :: attacked_text where
  "quick_fox_deleted =
     AttackedText [(''text'', ''The fox jumps.'')]
       [''The'', ''fox'', ''jumps''] [0, - 1, 1, 2] {} (Some {}) (Some quick_fox)"

definition quick_fox_inserted :: attacked_text where
  "quick_fox_inserted =
     AttackedText [(''text'', ''The very slow fox jumps.'')]
       [''The'', ''very'', ''slow'', ''fox'', ''jumps''] [0, 1, 3, 4] {1, 2} (Some {1, 2})
       (Some quick_fox)"

definition quick_fox_twice :: attacked_text where
  "quick_fox_twice =
     AttackedText [(''text'', ''The slow fox jumps.'')]
       [''The'', ''slow'', ''fox'', ''jumps''] [0, - 1, 2, 3] {1} (Some {})
       (Some quick_fox_inserted)"

definition quick_fox_copy :: attacked_text where
  "quick_fox_copy =
     AttackedText [(''text'', ''The quick fox jumps.'')]
       [''The'', ''quick'', ''fox'', ''jumps''] [0, 1, 2, 3] {} (Some {}) (Some quick_fox)"

text \<open>The root snapshot of a text that contains the split token, and the root snapshot
  of a text with a repeated word.\<close>

definition token_text :: attacked_text where
  "token_text =
     AttackedText [(''text'', ''a >>>> b'')] [''a'', ''b''] [0, 1] {} None None"

definition repeated_words :: attacked_text where
  "repeated_words =
     AttackedText [(''text'', ''a a a b'')] [''a'', ''a'', ''a'', ''b''] [0, 1, 2, 3] {} None None"

section \<open>Facts about the string operations\<close>

lemma first_occurrence_Some:
  "first_occurrence sub s = Some k \<Longrightarrow>
     take (length sub) (drop k s) = sub \<and> k + length sub \<le> length s"
proof (induction s arbitrary: k)
  case Nil
  then show ?case by (simp split: if_splits)
next
  case (Cons c cs)
  show ?case
  proof (cases "take (length sub) (c # cs) = sub")
    case True
    with Cons.prems have "k = 0" by simp
    moreover have "length (take (length sub) (c # cs)) = length sub"
      using True by simp
    then have "length sub \<le> length (c # cs)" by simp
    ultimately show ?thesis using True by simp
  next
    case False
    with Cons.prems obtain k' where k': "first_occurrence sub cs = Some k'" "k = Suc k'"
      by auto
    from Cons.IH[OF k'(1)] k'(2) show ?thesis by simp
  qed
qed

text \<open>Cutting a text around the first occurrence of a word and putting the word back
  gives the text.\<close>

lemma first_occurrence_rebuild:
  assumes "first_occurrence sub s = Some k"
  shows "take k s @ sub @ drop (k + length sub) s = s"
proof -
  from first_occurrence_Some[OF assms] have t: "take (length sub) (drop k s) = sub" by simp
  have "drop k s = take (length sub) (drop k s) @ drop (length sub) (drop k s)"
    by (simp only: append_take_drop_id)
  then have "drop k s = sub @ drop (k + length sub) s"
    using t by (simp add: add.commute)
  then show ?thesis
    by (metis append_take_drop_id)
qed

lemma last_dropWhile_nonempty:
  "dropWhile P xs \<noteq> [] \<Longrightarrow> last (dropWhile P xs) = last xs"
  by (induction xs) (auto split: if_splits)

lemma dropWhile_rev_strip: "dropWhile is_space (rev (strip s)) = rev (strip s)"
  by (simp add: strip_def)

lemma dropWhile_strip: "dropWhile is_space (strip s) = strip s"
proof (cases "strip s = []")
  case True
  then show ?thesis by simp
next
  case False
  let ?a = "dropWhile is_space s"
  let ?b = "dropWhile is_space (rev ?a)"
  have b: "?b \<noteq> []" using False by (simp add: strip_def)
  then have a: "?a \<noteq> []" by (cases ?a) auto
  have "hd (strip s) = last ?b" using b by (simp add: strip_def hd_rev)
  also have "\<dots> = last (rev ?a)" using b by (rule last_dropWhile_nonempty)
  also have "\<dots> = hd ?a" using a by (simp add: last_rev)
  finally have "\<not> is_space (hd (strip s))" using hd_dropWhile[OF a] by simp
  with False show ?thesis by (cases "strip s") auto
qed

lemma strip_idem: "strip (strip s) = strip s"
  by (subst (1) strip_def) (simp only: dropWhile_strip dropWhile_rev_strip rev_rev_ident)

text \<open>Splitting at the token what was joined by the token.\<close>

lemma split_loop_no_token:
  assumes "CHR ''>'' \<notin> set v"
  shows "split_loop SPLIT_TOKEN cur (v @ rest) = split_loop SPLIT_TOKEN (cur @ v) rest"
  using assms
proof (induction v arbitrary: cur)
  case Nil
  then show ?case by simp
next
  case (Cons c v)
  then have c: "c \<noteq> CHR ''>''" and v: "CHR ''>'' \<notin> set v" by auto
  from c have "take (length SPLIT_TOKEN) ((c # v) @ rest) \<noteq> SPLIT_TOKEN"
    by (auto simp: SPLIT_TOKEN_def)
  then have "split_loop SPLIT_TOKEN cur ((c # v) @ rest) =
      split_loop SPLIT_TOKEN (cur @ [c]) (v @ rest)"
    by (subst split_loop.simps) simp
  with Cons.IH[OF v, of "cur @ [c]"] show ?case by simp
qed

lemma split_loop_token:
  "split_loop SPLIT_TOKEN cur (SPLIT_TOKEN @ rest) = cur # split_loop SPLIT_TOKEN [] rest"
  by (subst split_loop.simps) (simp add: SPLIT_TOKEN_def)

lemma split_loop_join:
  assumes "\<forall>v \<in> set (x # xs). CHR ''>'' \<notin> set v"
  shows "split_loop SPLIT_TOKEN cur (join SPLIT_TOKEN (x # xs)) = (cur @ x) # xs"
  using assms
proof (induction xs arbitrary: x cur)
  case Nil
  then have "split_loop SPLIT_TOKEN cur (x @ []) = split_loop SPLIT_TOKEN (cur @ x) []"
    by (intro split_loop_no_token) simp
  then show ?case by (simp add: split_loop.simps[of _ _ "[]"])
next
  case (Cons y ys)
  then have x: "CHR ''>'' \<notin> set x" and rest: "\<forall>v \<in> set (y # ys). CHR ''>'' \<notin> set v"
    by auto
  have "split_loop SPLIT_TOKEN cur (join SPLIT_TOKEN (x # y # ys)) =
        split_loop SPLIT_TOKEN (cur @ x) (SPLIT_TOKEN @ join SPLIT_TOKEN (y # ys))"
    using split_loop_no_token[OF x] by simp
  also have "\<dots> = (cur @ x) # split_loop SPLIT_TOKEN [] (join SPLIT_TOKEN (y # ys))"
    by (rule split_loop_token)
  also have "\<dots> = (cur @ x) # y # ys"
    using Cons.IH[OF rest, of "[]"] by simp
  finally show ?case .
qed

text \<open>Segments without the character \<open>>\<close> split back.\<close>

lemma segments_split_back_no_token:
  assumes "\<forall>(k, v) \<in> set ti. CHR ''>'' \<notin> set v"
  shows "segments_split_back ti"
proof (cases ti)
  case Nil
  then show ?thesis by (simp add: segments_split_back_def)
next
  case (Cons kv rest)
  from assms have "\<forall>v \<in> set (map snd ti). CHR ''>'' \<notin> set v" by auto
  with Cons have "split (join SPLIT_TOKEN (map snd ti)) SPLIT_TOKEN = map snd ti"
    using split_loop_join[of "snd kv" "map snd rest" "[]"] by (simp add: split_def)
  then show ?thesis by (simp add: segments_split_back_def zip_map_fst_snd)
qed

section \<open>Facts about the loop of \<open>replace_new_words\<close>\<close>

lemma mark_loop_unchanged:
  "mark_loop n False (mi, nmi, ni) = (mi, nmi, ni + int n)"
  by (induction n arbitrary: ni) auto

lemma mark_loop_changed:
  "mark_loop n True (mi, nmi, ni) =
     (mi \<union> {ni ..< ni + int n}, nmi \<union> {ni ..< ni + int n}, ni + int n)"
proof (induction n arbitrary: mi nmi ni)
  case 0
  then show ?case by simp
next
  case (Suc n)
  have "insert ni {ni + 1 ..< ni + 1 + int n} = {ni ..< ni + int (Suc n)}" by auto
  then show ?case using Suc[of "insert ni mi" "insert ni nmi" "ni + 1"]
    by (auto simp del: of_nat_Suc)
qed

lemma length_new_idx_map: "length (new_idx_map m i d) = length m"
  by (simp add: new_idx_map_def Let_def)

lemma new_idx_map_deletion:
  "new_idx_map m (int k) (- 1) =
     map (\<lambda>v. if v = int k then - 1 else if v > int k then v - 1 else v) m"
  by (auto simp: new_idx_map_def)

text \<open>After a deletion at \<open>k\<close>, the entries \<open>-1\<close> of the map are the ones it had and the
  ones that were equal to \<open>k\<close>.\<close>

lemma deletion_indices_after_deletion:
  "length (filter (\<lambda>v. v = - 1)
     (map (\<lambda>v. if v = int k then - 1 else if v > int k then v - 1 else v) m)) =
   length (filter (\<lambda>v. v = - 1) m) + count_list m (int k)"
  by (induction m) auto

lemma shifted_modified_indices_deletion:
  "j \<in> shifted_modified_indices mi i (- 1) \<longleftrightarrow> (j < i \<and> j \<in> mi) \<or> (j \<ge> i \<and> j + 1 \<in> mi)"
  by (auto simp: shifted_modified_indices_def image_iff)

lemma rnw_step_length_map:
  "rnw_step wft st x = Inr st' \<Longrightarrow>
     length (new_original_index_map st') = length (new_original_index_map st)"
  by (cases x)
     (auto simp: rnw_step_def Let_def length_new_idx_map
           split: sum.splits prod.splits if_splits list.splits)

lemma rnw_loop_length_map:
  "rnw_loop wft st xs = Inr st' \<Longrightarrow>
     length (new_original_index_map st') = length (new_original_index_map st)"
proof (induction xs arbitrary: st)
  case Nil
  then show ?case by simp
next
  case (Cons x xs)
  then show ?case
    by (auto split: sum.splits dest!: rnw_step_length_map)
qed

text \<open>A word replaced by itself leaves the bookkeeping alone.\<close>

lemma rnw_step_same_word:
  "rnw_step wft st (i, w, w) = Inr st' \<Longrightarrow>
     new_modified_indices st' = new_modified_indices st \<and>
     new_newly_modified_indices st' = new_newly_modified_indices st \<and>
     new_original_index_map st' = new_original_index_map st"
  by (auto simp: rnw_step_def Let_def mark_loop_unchanged
           split: sum.splits prod.splits if_splits list.splits)

lemma rnw_step_same_word_text:
  assumes "first_occurrence w (original_text st) = Some k" and "wft w \<noteq> []"
  shows "\<exists>st'. rnw_step wft st (i, w, w) = Inr st' \<and>
           perturbed_text st' @ original_text st' = perturbed_text st @ original_text st"
  using assms first_occurrence_rebuild[OF assms(1)]
  by (auto simp: rnw_step_def str_index_def Let_def mark_loop_unchanged
           split: sum.splits prod.splits if_splits list.splits)

lemma rnw_step_same_word_original:
  assumes "first_occurrence w (original_text st) = Some k" and "wft w \<noteq> []"
    and "rnw_step wft st (i, w, w) = Inr st'"
  shows "original_text st' = drop (k + length w) (original_text st)"
  using assms
  by (auto simp: rnw_step_def str_index_def Let_def mark_loop_unchanged
           split: sum.splits prod.splits if_splits list.splits)

text \<open>A replacement of zero words marks nothing; the sets and the map are shifted when the
  word it replaces counts for at least one word.\<close>

lemma rnw_step_deletion:
  assumes "wft r = []" and "rnw_step wft st (i, w, r) = Inr st'"
  shows "new_newly_modified_indices st' = new_newly_modified_indices st"
    and "new_modified_indices st' =
           (if wft w = [] then new_modified_indices st
            else shifted_modified_indices (new_modified_indices st) (int i)
                   (- int (length (wft w))))"
    and "new_original_index_map st' =
           (if wft w = [] then new_original_index_map st
            else new_idx_map (new_original_index_map st) (int i) (- int (length (wft w))))"
  using assms
  by (auto simp: rnw_step_def Let_def
           split: sum.splits prod.splits if_splits list.splits)

lemma rnw_loop_append:
  "rnw_loop wft st (xs @ ys) =
     (case rnw_loop wft st xs of Inl e \<Rightarrow> Inl e | Inr st' \<Rightarrow> rnw_loop wft st' ys)"
  by (induction xs arbitrary: st) (auto split: sum.splits)

lemma rnw_loop_same_words:
  "rnw_loop wft st (zip is (zip ws ws)) = Inr st' \<Longrightarrow>
     new_modified_indices st' = new_modified_indices st \<and>
     new_newly_modified_indices st' = new_newly_modified_indices st \<and>
     new_original_index_map st' = new_original_index_map st"
proof (induction ws arbitrary: "is" st)
  case Nil
  then show ?case by simp
next
  case (Cons w ws)
  show ?case
  proof (cases "is")
    case Nil
    with Cons.prems show ?thesis by simp
  next
    case (Cons i is')
    with Cons.prems obtain st1 where
      s1: "rnw_step wft st (i, w, w) = Inr st1"
      and l: "rnw_loop wft st1 (zip is' (zip ws ws)) = Inr st'"
      by (auto split: sum.splits)
    from rnw_step_same_word[OF s1] Cons.IH[OF l] show ?thesis by simp
  qed
qed

lemma rnw_loop_same_words_text:
  assumes "words_found_in_order ws (original_text st)" and "\<forall>w\<in>set ws. wft w \<noteq> []"
    and "length is = length ws"
  shows "\<exists>st'. rnw_loop wft st (zip is (zip ws ws)) = Inr st' \<and>
           perturbed_text st' @ original_text st' = perturbed_text st @ original_text st"
  using assms
proof (induction ws arbitrary: "is" st)
  case Nil
  then show ?case by simp
next
  case (Cons w ws)
  from Cons.prems(3) obtain i is' where is_eq: "is = i # is'" "length is' = length ws"
    by (cases "is") auto
  from Cons.prems(1) obtain k where
    k: "first_occurrence w (original_text st) = Some k"
    and rest: "words_found_in_order ws (drop (k + length w) (original_text st))"
    by (auto split: option.splits)
  from Cons.prems(2) have w: "wft w \<noteq> []" and ws: "\<forall>w\<in>set ws. wft w \<noteq> []" by auto
  from rnw_step_same_word_text[where wft = wft and i = i, OF k w] obtain st1 where
    s1: "rnw_step wft st (i, w, w) = Inr st1"
    and t1: "perturbed_text st1 @ original_text st1 = perturbed_text st @ original_text st"
    by blast
  from rnw_step_same_word_original[where wft = wft, OF k w s1] rest
  have "words_found_in_order ws (original_text st1)" by simp
  from Cons.IH[OF this ws is_eq(2)] obtain st' where
    "rnw_loop wft st1 (zip is' (zip ws ws)) = Inr st'"
    "perturbed_text st' @ original_text st' = perturbed_text st1 @ original_text st1"
    by blast
  with s1 t1 is_eq(1) show ?case by simp
qed

lemma enumerate_zip_update:
  assumes "k < length ws"
  shows "enumerate_zip ws (ws[k := r]) =
           zip [0..<k] (zip (take k ws) (take k ws)) @
           (k, ws ! k, r) #
           zip [Suc k..<length ws] (zip (drop (Suc k) ws) (drop (Suc k) ws))"
proof -
  have n: "[0..<length ws] = [0..<k] @ k # [Suc k..<length ws]"
    using assms
    by (metis less_imp_le_nat upt_add_eq_append upt_conv_Cons le0 le_add_diff_inverse)
  have w: "ws = take k ws @ ws ! k # drop (Suc k) ws"
    using assms by (rule id_take_nth_drop)
  have u: "ws[k := r] = take k ws @ r # drop (Suc k) ws"
    using assms by (rule upd_conv_take_nth_drop)
  have "zip ws (ws[k := r]) =
          zip (take k ws) (take k ws) @ (ws ! k, r) # zip (drop (Suc k) ws) (drop (Suc k) ws)"
    by (subst u, subst (1) w) (simp del: append_take_drop_id)
  then show ?thesis
    using assms by (simp add: enumerate_zip_def n min_def)
qed

section \<open>Facts about \<open>__init__\<close>, \<open>replace_new_words\<close> and \<open>replace_words_at_indices\<close>\<close>

lemma init_root_length_map:
  "init wft tia AttrsNone = Inr r0 \<Longrightarrow> length (original_index_map r0) = length (words r0)"
  by (auto simp: init_def Let_def arange_def split: sum.splits text_input_arg.splits)

text \<open>Every segment of a constructed snapshot is stripped.\<close>

lemma init_stripped:
  assumes "init wft tia aa = Inr s"
  shows "map (\<lambda>(k, v). (k, strip v)) (text_input s) = text_input s"
  using assms
  by (auto simp: init_def Let_def strip_idem case_prod_beta
           split: sum.splits text_input_arg.splits attack_attrs_arg.splits)

lemma replace_new_words_Inr:
  assumes "replace_new_words wft s nw = Inr s'"
  shows "\<exists>st. rnw_loop wft (rnw_state0 s) (enumerate_zip (words s) nw) = Inr st \<and>
           original_index_map s' = new_original_index_map st \<and>
           modified_indices s' = new_modified_indices st \<and>
           newly_modified_indices s' = Some (new_newly_modified_indices st) \<and>
           previous_attacked_text s' = Some s \<and>
           text_input s' = map (\<lambda>(k, v). (k, strip v))
              (zip (map fst (text_input s))
                   (split (perturbed_text st @ original_text st) SPLIT_TOKEN))"
  using assms
  by (auto simp: replace_new_words_def init_def Let_def split: sum.splits)

lemma replace_new_words_success:
  assumes "rnw_loop wft (rnw_state0 s) (enumerate_zip (words s) nw) = Inr st"
  shows "\<exists>s'. replace_new_words wft s nw = Inr s' \<and>
           original_index_map s' = new_original_index_map st \<and>
           modified_indices s' = new_modified_indices st \<and>
           newly_modified_indices s' = Some (new_newly_modified_indices st) \<and>
           previous_attacked_text s' = Some s \<and>
           text_input s' = map (\<lambda>(k, v). (k, strip v))
              (zip (map fst (text_input s))
                   (split (perturbed_text st @ original_text st) SPLIT_TOKEN))"
  using assms
  by (auto simp: replace_new_words_def init_def Let_def split: sum.splits)

lemma replace_words_at_indices_Inr:
  "replace_words_at_indices wft s idx nw = Inr s' \<Longrightarrow>
     \<exists>ws. replace_new_words wft s ws = Inr s'"
  by (auto simp: replace_words_at_indices_def split: if_splits sum.splits)

lemma replace_new_words_length_map:
  assumes "replace_new_words wft s nw = Inr s'"
  shows "length (original_index_map s') = length (original_index_map s)"
proof -
  from replace_new_words_Inr[OF assms] obtain st where
    l: "rnw_loop wft (rnw_state0 s) (enumerate_zip (words s) nw) = Inr st"
    and m: "original_index_map s' = new_original_index_map st" by blast
  from rnw_loop_length_map[OF l] m show ?thesis by (simp add: rnw_state0_def)
qed

lemma rewrite_chain_length_map:
  "rewrite_chain wft s nws = Inr s' \<Longrightarrow>
     length (original_index_map s') = length (original_index_map s)"
proof (induction nws arbitrary: s)
  case Nil
  then show ?case by simp
next
  case (Cons nw nws)
  then show ?case
    by (auto split: sum.splits dest!: replace_new_words_length_map)
qed

lemma rwai_loop_identity:
  assumes "\<forall>(i, v)\<in>set ivs. i < length ws \<and> ws ! i = v"
  shows "rwai_loop ws (map (\<lambda>(i, v). (IsInt (int i), IsStr v)) ivs) = Inr ws"
  using assms
  by (induction ivs) (auto simp: list_assign_def to_int_def)

lemma identity_edits_zip:
  "zip (map (\<lambda>i. IsInt (int i)) [0..<length ws]) (map IsStr ws)
     = map (\<lambda>(i, v). (IsInt (int i), IsStr v)) (zip [0..<length ws] ws)"
  by (simp add: zip_map_map)

lemma rwai_loop_identity_edits:
  "rwai_loop ws (zip (map (\<lambda>i. IsInt (int i)) [0..<length ws]) (map IsStr ws)) = Inr ws"
proof -
  have "\<forall>(i, v)\<in>set (zip [0..<length ws] ws). i < length ws \<and> ws ! i = v"
    by (auto simp: set_zip)
  from rwai_loop_identity[OF this] show ?thesis
    by (simp only: identity_edits_zip)
qed

lemma first_word_diff_loop_eq:
  "first_word_diff_loop w1 w2 is = (if \<exists>i\<in>set is. w1 ! i \<noteq> w2 ! i then Some w1 else None)"
  by (induction "is") auto

section \<open>The example text\<close>

lemma strip_quick_fox: "strip ''The quick fox jumps.'' = ''The quick fox jumps.''"
  by code_simp

lemma init_quick_fox:
  assumes "wft ''The quick fox jumps.'' = [''The'', ''quick'', ''fox'', ''jumps'']"
  shows "init wft (TextStr ''The quick fox jumps.'') AttrsNone = Inr quick_fox"
  using assms
  by (simp add: init_def quick_fox_def joined_text_def strip_quick_fox arange_def upt_rec)

lemma quick_fox_fields:
  "text_input quick_fox = [(''text'', ''The quick fox jumps.'')]"
  "words quick_fox = [''The'', ''quick'', ''fox'', ''jumps'']"
  "original_index_map quick_fox = [0, 1, 2, 3]"
  "modified_indices quick_fox = {}"
  by (simp_all add: quick_fox_def)

lemma words_from_text_single:
  "length (words_from_text ''The'') = 1" "length (words_from_text ''quick'') = 1"
  "length (words_from_text ''fox'') = 1" "length (words_from_text ''jumps'') = 1"
  by code_simp+

lemma first_occurrence_The: "first_occurrence ''The'' ''The quick fox jumps.'' = Some 0"
  by code_simp

lemma first_occurrence_quick: "first_occurrence ''quick'' '' quick fox jumps.'' = Some 1"
  by code_simp

lemma first_occurrence_fox: "first_occurrence ''fox'' '' fox jumps.'' = Some 1"
  by code_simp

lemma first_occurrence_jumps: "first_occurrence ''jumps'' '' jumps.'' = Some 1"
  by code_simp

lemmas first_occurrence_quick_fox =
  first_occurrence_The first_occurrence_quick first_occurrence_fox first_occurrence_jumps

lemma split_deleted: "split ''The fox jumps.'' SPLIT_TOKEN = [''The fox jumps.'']"
  by code_simp

lemma strip_deleted: "strip ''The fox jumps.'' = ''The fox jumps.''"
  by code_simp

lemma split_inserted:
  "split ''The very slow fox jumps.'' SPLIT_TOKEN = [''The very slow fox jumps.'']"
  by code_simp

lemma strip_inserted: "strip ''The very slow fox jumps.'' = ''The very slow fox jumps.''"
  by code_simp

text \<open>The two rewrites of the examples, for any tokenizer that counts the words of the
  example as the spec does.\<close>

lemma replace_new_words_deleted:
  assumes l: "length (wft ''The'') = 1" "length (wft ''quick'') = 1"
      "length (wft ''fox'') = 1" "length (wft ''jumps'') = 1"
    and e: "wft '''' = []"
  shows "replace_new_words wft quick_fox [''The'', '''', ''fox'', ''jumps''] =
     Inr (AttackedText [(''text'', ''The fox jumps.'')] (wft ''The fox jumps.'')
            [0, - 1, 1, 2] {} (Some {}) (Some quick_fox))"
proof -
  from l have ne: "wft ''The'' \<noteq> []" "wft ''quick'' \<noteq> []" "wft ''fox'' \<noteq> []"
      "wft ''jumps'' \<noteq> []"
    by auto
  have "rnw_loop wft (rnw_state0 quick_fox)
          (enumerate_zip (words quick_fox) [''The'', '''', ''fox'', ''jumps'']) =
        Inr \<lparr>perturbed_text = ''The fox jumps'', original_text = ''.'',
             new_modified_indices = {}, new_newly_modified_indices = {},
             new_original_index_map = [0, - 1, 1, 2], new_i = 3\<rparr>"
    by (simp add: rnw_state0_def quick_fox_fields enumerate_zip_def upt_rec rnw_step_def
          str_index_def first_occurrence_quick_fox ne l e Let_def mark_loop_unchanged
          new_idx_map_def shifted_modified_indices_def)
  then show ?thesis
    by (simp add: replace_new_words_def split_deleted init_def strip_deleted joined_text_def
          quick_fox_fields Let_def)
qed

lemma replace_new_words_inserted:
  assumes l: "length (wft ''The'') = 1" "length (wft ''quick'') = 1"
      "length (wft ''fox'') = 1" "length (wft ''jumps'') = 1"
    and v: "length (wft ''very slow'') = 2"
  shows "replace_new_words wft quick_fox [''The'', ''very slow'', ''fox'', ''jumps''] =
     Inr (AttackedText [(''text'', ''The very slow fox jumps.'')]
            (wft ''The very slow fox jumps.'')
            [0, 1, 3, 4] {1, 2} (Some {1, 2}) (Some quick_fox))"
proof -
  from l have ne: "wft ''The'' \<noteq> []" "wft ''quick'' \<noteq> []" "wft ''fox'' \<noteq> []"
      "wft ''jumps'' \<noteq> []"
    by auto
  from v have nv: "wft ''very slow'' \<noteq> []" by auto
  have two: "{1 ..< 3} = {1, 2 :: int}" by auto
  have "rnw_loop wft (rnw_state0 quick_fox)
          (enumerate_zip (words quick_fox) [''The'', ''very slow'', ''fox'', ''jumps'']) =
        Inr \<lparr>perturbed_text = ''The very slow fox jumps'', original_text = ''.'',
             new_modified_indices = {1, 2}, new_newly_modified_indices = {1, 2},
             new_original_index_map = [0, 1, 3, 4], new_i = 5\<rparr>"
    by (simp add: rnw_state0_def quick_fox_fields enumerate_zip_def upt_rec rnw_step_def
          str_index_def first_occurrence_quick_fox l v ne nv Let_def mark_loop_unchanged
          mark_loop_changed two new_idx_map_def shifted_modified_indices_def)
  then show ?thesis
    by (simp add: replace_new_words_def split_inserted init_def strip_inserted joined_text_def
          quick_fox_fields Let_def)
qed

lemma replace_word_at_index_quick_fox:
  "replace_word_at_index wft quick_fox (IsInt 1) (IsStr r) =
     replace_new_words wft quick_fox [''The'', r, ''fox'', ''jumps'']"
  by (simp add: replace_word_at_index_def replace_words_at_indices_def list_assign_def to_int_def
        quick_fox_def)

section \<open>Facts about \<open>__eq__\<close>, the range check and the text window\<close>

lemma ndarray_eq_iff: "ndarray_eq a b \<longleftrightarrow> a = b"
proof
  assume "ndarray_eq a b"
  then have l: "length a = length b" and e: "\<forall>(x, y) \<in> set (zip a b). x = y"
    by (auto simp: ndarray_eq_def list_all_iff)
  from l e show "a = b"
    by (induction a b rule: list_induct2) auto
next
  assume "a = b"
  then show "ndarray_eq a b"
    by (auto simp: ndarray_eq_def list_all_iff set_zip)
qed

text \<open>What \<open>__eq__\<close> checks: the text, and the keys of the left operand.\<close>

lemma attacked_text_eq_iff:
  "attacked_text_eq a b \<longleftrightarrow>
     text_of a = text_of b \<and>
     original_index_map a = original_index_map b \<and>
     modified_indices a = modified_indices b \<and>
     (\<forall>x. newly_modified_indices a = Some x \<longrightarrow> newly_modified_indices b = Some x) \<and>
     (\<forall>p. previous_attacked_text a = Some p \<longrightarrow>
          (\<exists>q. previous_attacked_text b = Some q \<and> attacked_text_eq p q))"
  by (cases a) (auto simp: ndarray_eq_iff text_of_def split: option.splits)

lemma eq_needs_same_modified_indices:
  "text_of a = text_of b \<Longrightarrow> modified_indices a \<noteq> modified_indices b \<Longrightarrow>
     \<not> attacked_text_eq a b \<and> \<not> attacked_text_eq b a"
  by (auto simp: attacked_text_eq_iff[of a b] attacked_text_eq_iff[of b a])

lemma index_out_of_range_raises_ValueError:
  "i < 0 \<or> i > int (length (words s)) \<Longrightarrow>
     replace_words_at_indices wft s [IsInt i] [IsStr w] = Inl ValueError"
  by (auto simp: replace_words_at_indices_def to_int_def)

text \<open>When the index less half the window is below zero, the word window starts at 0 and
  ends at \<open>window_size - 1\<close>, or at the last word if that comes first.\<close>

lemma word_window_lower_clamp:
  "2 * index < window_size - 1 \<Longrightarrow>
     word_window len index window_size = (0, min (window_size - 1) (len - 1))"
proof -
  assume a: "2 * index < window_size - 1"
  then have "real_of_int (2 * index) < real_of_int (window_size - 1)"
    by (simp only: of_int_less_iff)
  then have "real_of_int index - real_of_int (window_size - 1) / 2 < 0"
    by simp
  then show ?thesis
    by (simp add: word_window_def Let_def)
qed

lemma text_window_quick_fox: "text_window_around_index quick_fox 0 3 = Inr ''The quick fox''"
  by code_simp

text \<open>An index in range can still end in \<open>IndexError\<close>: deleting the only word of
  \<open>"Hello"\<close> reads \<open>original_text[0]\<close> of an empty string in line 314.\<close>

lemma deleting_only_word_raises_IndexError:
  "init words_from_text (TextStr ''Hello'') AttrsNone =
     Inr (AttackedText [(''text'', ''Hello'')] [''Hello''] [0] {} None None) \<and>
   delete_word_at_index words_from_text
     (AttackedText [(''text'', ''Hello'')] [''Hello''] [0] {} None None) (IsInt 0)
     = Inl IndexError"
  by code_simp

section \<open>The properties\<close>

subsection \<open>The length of the index map\<close>

text \<open>
  Claim C1 says that in every snapshot, also one a rewrite returns, the index map is as
  long as the list of words. The code does not keep this: \<open>replace_new_words\<close> changes
  entries of a copy of the map and never its length. Replacing \<open>quick\<close> by
  \<open>very slow\<close> in \<open>"The quick fox jumps."\<close> returns a snapshot in which the two
  lengths differ.
\<close>

theorem index_map_length_counterexample:
  "map_sum id (\<lambda>s. length (original_index_map s) = length (words s))
     (replace_word_at_index words_from_text quick_fox (IsInt 1) (IsStr ''very slow''))
   = Inr False"
  by code_simp

text \<open>
  Claim C1, amended: a root snapshot (constructed without attack attributes) has an index
  map as long as its list of words, and every snapshot reached from it by a chain of
  rewrites has an index map of that same length, the number of words of the root; a
  rewrite by \<open>replace_words_at_indices\<close> returns a map as long as the map of its input.
\<close>

theorem index_map_length_is_root_word_count:
  "(init wft tia AttrsNone = Inr r0 \<and> rewrite_chain wft r0 nws = Inr t
      \<longrightarrow> length (original_index_map t) = length (words r0)) \<and>
   (replace_words_at_indices wft s idx ws = Inr s'
      \<longrightarrow> length (original_index_map s') = length (original_index_map s))"
proof (intro conjI impI)
  assume a: "init wft tia AttrsNone = Inr r0 \<and> rewrite_chain wft r0 nws = Inr t"
  then have "length (original_index_map t) = length (original_index_map r0)"
    using rewrite_chain_length_map[of wft r0 nws t] by simp
  moreover from a have "length (original_index_map r0) = length (words r0)"
    using init_root_length_map[of wft tia r0] by simp
  ultimately show "length (original_index_map t) = length (words r0)"
    by simp
next
  assume "replace_words_at_indices wft s idx ws = Inr s'"
  then obtain nw where "replace_new_words wft s nw = Inr s'"
    using replace_words_at_indices_Inr by blast
  then show "length (original_index_map s') = length (original_index_map s)"
    by (rule replace_new_words_length_map)
qed

theorem index_map_length_is_root_word_count_witness:
  "init words_from_text (TextStr ''The quick fox jumps.'') AttrsNone = Inr quick_fox \<and>
   rewrite_chain words_from_text quick_fox
     [[''The'', ''very slow'', ''fox'', ''jumps''], [''The'', '''', ''slow'', ''fox'', ''jumps'']]
     = Inr quick_fox_twice \<and>
   length (original_index_map quick_fox_twice) = length (words quick_fox) \<and>
   replace_words_at_indices words_from_text quick_fox [IsInt 1] [IsStr '''']
     = Inr quick_fox_deleted \<and>
   length (original_index_map quick_fox_deleted) = length (original_index_map quick_fox)"
proof -
  have a: "init words_from_text (TextStr ''The quick fox jumps.'') AttrsNone = Inr quick_fox"
    by code_simp
  have b: "rewrite_chain words_from_text quick_fox
     [[''The'', ''very slow'', ''fox'', ''jumps''], [''The'', '''', ''slow'', ''fox'', ''jumps'']]
     = Inr quick_fox_twice"
    by code_simp
  have c: "replace_words_at_indices words_from_text quick_fox [IsInt 1] [IsStr '''']
     = Inr quick_fox_deleted"
    by code_simp
  from index_map_length_is_root_word_count
         [of words_from_text "TextStr ''The quick fox jumps.''" quick_fox
             "[[''The'', ''very slow'', ''fox'', ''jumps''],
               [''The'', '''', ''slow'', ''fox'', ''jumps'']]"
             quick_fox_twice quick_fox "[IsInt 1]" "[IsStr '''']" quick_fox_deleted]
       a b c
  show ?thesis by simp
qed

subsection \<open>Insertion\<close>

text \<open>
  Claim C2 says that replacing the word at index 1 of \<open>"The quick fox jumps."\<close> by
  \<open>"very slow"\<close> gives the index map \<open>[0, 1, 1, 2, 3]\<close>. The rewrite returns a snapshot
  whose index map is not that list.
\<close>

theorem insertion_index_map_counterexample:
  "map_sum id (\<lambda>s. original_index_map s = [0, 1, 1, 2, 3])
     (replace_word_at_index words_from_text quick_fox (IsInt 1) (IsStr ''very slow''))
   = Inr False"
  by code_simp

text \<open>
  Claim C2, amended: for the root snapshot of \<open>"The quick fox jumps."\<close>, replacing the
  word at index 1 by \<open>"very slow"\<close> returns a snapshot whose words are
  \<open>[The, very, slow, fox, jumps]\<close>, whose index map is \<open>[0, 1, 3, 4]\<close> (one entry for each
  word of the root, the entries above 1 moved by one), and whose modified indices are the
  new positions 1 and 2. The tokenizer is any function that splits the two texts as the
  spec says and counts each word as one word and \<open>"very slow"\<close> as two.
\<close>

theorem insertion_shifts_map:
  assumes "wft ''The quick fox jumps.'' = [''The'', ''quick'', ''fox'', ''jumps'']"
    and "wft ''The very slow fox jumps.'' = [''The'', ''very'', ''slow'', ''fox'', ''jumps'']"
    and "length (wft ''The'') = 1" and "length (wft ''quick'') = 1"
    and "length (wft ''fox'') = 1" and "length (wft ''jumps'') = 1"
    and "length (wft ''very slow'') = 2"
  shows "init wft (TextStr ''The quick fox jumps.'') AttrsNone = Inr quick_fox \<and>
         map_sum id words (replace_word_at_index wft quick_fox (IsInt 1) (IsStr ''very slow''))
           = Inr [''The'', ''very'', ''slow'', ''fox'', ''jumps''] \<and>
         map_sum id original_index_map
             (replace_word_at_index wft quick_fox (IsInt 1) (IsStr ''very slow''))
           = Inr [0, 1, 3, 4] \<and>
         map_sum id modified_indices
             (replace_word_at_index wft quick_fox (IsInt 1) (IsStr ''very slow''))
           = Inr {1, 2}"
  using init_quick_fox[where wft = wft, OF assms(1)]
    replace_new_words_inserted[where wft = wft, OF assms(3-7)] assms(2)
  by (simp add: replace_word_at_index_quick_fox)

theorem insertion_shifts_map_witness:
  "words_from_text ''The quick fox jumps.'' = [''The'', ''quick'', ''fox'', ''jumps''] \<and>
   words_from_text ''The very slow fox jumps.'' = [''The'', ''very'', ''slow'', ''fox'', ''jumps''] \<and>
   length (words_from_text ''The'') = 1 \<and> length (words_from_text ''quick'') = 1 \<and>
   length (words_from_text ''fox'') = 1 \<and> length (words_from_text ''jumps'') = 1 \<and>
   length (words_from_text ''very slow'') = 2 \<and>
   init words_from_text (TextStr ''The quick fox jumps.'') AttrsNone = Inr quick_fox \<and>
   map_sum id words
       (replace_word_at_index words_from_text quick_fox (IsInt 1) (IsStr ''very slow''))
     = Inr [''The'', ''very'', ''slow'', ''fox'', ''jumps''] \<and>
   map_sum id original_index_map
       (replace_word_at_index words_from_text quick_fox (IsInt 1) (IsStr ''very slow''))
     = Inr [0, 1, 3, 4] \<and>
   map_sum id modified_indices
       (replace_word_at_index words_from_text quick_fox (IsInt 1) (IsStr ''very slow''))
     = Inr {1, 2}"
proof -
  have a: "words_from_text ''The quick fox jumps.'' = [''The'', ''quick'', ''fox'', ''jumps'']"
    by code_simp
  have b: "words_from_text ''The very slow fox jumps.''
             = [''The'', ''very'', ''slow'', ''fox'', ''jumps'']"
    by code_simp
  note c = words_from_text_single
  have d: "length (words_from_text ''very slow'') = 2"
    by code_simp
  from insertion_shifts_map[of words_from_text, OF a b c d] a b c d
  show ?thesis by simp
qed

subsection \<open>Deletion\<close>

text \<open>
  Claim C3: for the root snapshot of \<open>"The quick fox jumps."\<close> (words
  \<open>[The, quick, fox, jumps]\<close>), deleting the word at index 1 returns a snapshot whose
  joined text is \<open>"The fox jumps."\<close> and whose index map is \<open>[0, -1, 1, 2]\<close>. The
  tokenizer is any function that splits the text as the spec says, counts each of its
  words as one word and finds no word in the empty string.
\<close>

theorem deletion_shifts_map:
  assumes "wft ''The quick fox jumps.'' = [''The'', ''quick'', ''fox'', ''jumps'']"
    and "length (wft ''The'') = 1" and "length (wft ''quick'') = 1"
    and "length (wft ''fox'') = 1" and "length (wft ''jumps'') = 1"
    and "wft '''' = []"
  shows "init wft (TextStr ''The quick fox jumps.'') AttrsNone = Inr quick_fox \<and>
         map_sum id text_of (delete_word_at_index wft quick_fox (IsInt 1))
           = Inr ''The fox jumps.'' \<and>
         map_sum id original_index_map (delete_word_at_index wft quick_fox (IsInt 1))
           = Inr [0, - 1, 1, 2]"
  using init_quick_fox[where wft = wft, OF assms(1)]
    replace_new_words_deleted[where wft = wft, OF assms(2-6)]
  by (simp add: delete_word_at_index_def replace_word_at_index_quick_fox text_of_def
        joined_text_def)

theorem deletion_shifts_map_witness:
  "words_from_text ''The quick fox jumps.'' = [''The'', ''quick'', ''fox'', ''jumps''] \<and>
   length (words_from_text ''The'') = 1 \<and> length (words_from_text ''quick'') = 1 \<and>
   length (words_from_text ''fox'') = 1 \<and> length (words_from_text ''jumps'') = 1 \<and>
   words_from_text '''' = [] \<and>
   init words_from_text (TextStr ''The quick fox jumps.'') AttrsNone = Inr quick_fox \<and>
   map_sum id text_of (delete_word_at_index words_from_text quick_fox (IsInt 1))
     = Inr ''The fox jumps.'' \<and>
   map_sum id original_index_map (delete_word_at_index words_from_text quick_fox (IsInt 1))
     = Inr [0, - 1, 1, 2]"
proof -
  have a: "words_from_text ''The quick fox jumps.'' = [''The'', ''quick'', ''fox'', ''jumps'']"
    by code_simp
  note b = words_from_text_single
  have c: "words_from_text '''' = []"
    by code_simp
  from deletion_shifts_map[of words_from_text, OF a b c] a b c
  show ?thesis by simp
qed

subsection \<open>The identity rewrite\<close>

text \<open>
  Claim C4: rewriting every word of a snapshot with itself gives back the joined text and
  leaves the modified indices as they are. The code does not do this for every snapshot:
  the rebuilt text is cut at the split token and only as many pieces as there are segments
  are kept, so a text that contains the token loses what follows it, although
  \<open>replace_new_words\<close> is documented to preserve the punctuation and spacing of the
  original message. The root snapshot of \<open>"a >>>> b"\<close> has the words \<open>a\<close> and \<open>b\<close>; its
  identity rewrite returns a snapshot whose text is \<open>"a"\<close>.
\<close>

theorem identity_rewrite_loses_text_after_token:
  "init words_from_text (TextStr ''a >>>> b'') AttrsNone = Inr token_text \<and>
   text_of token_text = ''a >>>> b'' \<and>
   identity_indices token_text = [IsInt 0, IsInt 1] \<and>
   identity_words token_text = [IsStr ''a'', IsStr ''b''] \<and>
   map_sum id text_of
     (replace_words_at_indices words_from_text token_text
        (identity_indices token_text) (identity_words token_text))
   = Inr ''a''"
  by code_simp

text \<open>
  Where the identity rewrite does give back the text: let \<open>s\<close> be a constructed snapshot
  whose segments, joined by the split token, split back into the same segments, whose
  words are found one after the other in that joined text, and each of whose words the
  tokenizer counts as at least one word. Then rewriting \<open>s\<close> with the identity edit list
  returns a snapshot whose joined text is the joined text of \<open>s\<close> and whose modified
  indices are those of \<open>s\<close>.
\<close>

lemma identity_rewrite_keeps_text:
  assumes s: "init wft tia aa = Inr s"
    and nonempty: "list_all (\<lambda>w. wft w \<noteq> []) (words s)"
    and found: "words_found_in_order (words s) (join SPLIT_TOKEN (map snd (text_input s)))"
    and sb: "segments_split_back (text_input s)"
  shows "\<exists>s'. replace_words_at_indices wft s (identity_indices s) (identity_words s) = Inr s'
              \<and> text_of s' = text_of s \<and> modified_indices s' = modified_indices s"
proof -
  let ?ws = "words s"
  have e: "enumerate_zip ?ws ?ws = zip [0..<length ?ws] (zip ?ws ?ws)"
    by (simp add: enumerate_zip_def)
  from nonempty have ne: "\<forall>w\<in>set ?ws. wft w \<noteq> []"
    by (simp add: list_all_iff)
  from found have "words_found_in_order ?ws (original_text (rnw_state0 s))"
    by (simp add: rnw_state0_def)
  from rnw_loop_same_words_text[OF this ne, of "[0..<length ?ws]"] obtain st where
    l: "rnw_loop wft (rnw_state0 s) (zip [0..<length ?ws] (zip ?ws ?ws)) = Inr st"
    and t: "perturbed_text st @ original_text st =
              perturbed_text (rnw_state0 s) @ original_text (rnw_state0 s)"
    by auto
  from l e have "rnw_loop wft (rnw_state0 s) (enumerate_zip ?ws ?ws) = Inr st" by simp
  from replace_new_words_success[OF this] obtain s' where
    r: "replace_new_words wft s ?ws = Inr s'"
    and mi: "modified_indices s' = new_modified_indices st"
    and ti: "text_input s' = map (\<lambda>(k, v). (k, strip v))
              (zip (map fst (text_input s))
                   (split (perturbed_text st @ original_text st) SPLIT_TOKEN))"
    by blast
  from t have "perturbed_text st @ original_text st = join SPLIT_TOKEN (map snd (text_input s))"
    by (simp add: rnw_state0_def)
  with ti sb have "text_input s' = map (\<lambda>(k, v). (k, strip v)) (text_input s)"
    by (simp add: segments_split_back_def)
  with init_stripped[OF s] have "text_input s' = text_input s" by simp
  then have "text_of s' = text_of s" by (simp add: text_of_def)
  moreover from rnw_loop_same_words[OF l] mi have "modified_indices s' = modified_indices s"
    by (simp add: rnw_state0_def)
  moreover have "replace_words_at_indices wft s (identity_indices s) (identity_words s) = Inr s'"
    using r
    by (simp add: replace_words_at_indices_def identity_indices_def identity_words_def
          rwai_loop_identity_edits)
  ultimately show ?thesis by blast
qed

lemma identity_rewrite_keeps_text_example:
  "init words_from_text (TextStr ''The quick fox jumps.'') AttrsNone = Inr quick_fox \<and>
   list_all (\<lambda>w. words_from_text w \<noteq> []) (words quick_fox) \<and>
   words_found_in_order (words quick_fox) (join SPLIT_TOKEN (map snd (text_input quick_fox))) \<and>
   segments_split_back (text_input quick_fox) \<and>
   (\<exists>s'. replace_words_at_indices words_from_text quick_fox
            (identity_indices quick_fox) (identity_words quick_fox) = Inr s'
         \<and> text_of s' = text_of quick_fox \<and> modified_indices s' = modified_indices quick_fox)"
proof -
  have a: "init words_from_text (TextStr ''The quick fox jumps.'') AttrsNone = Inr quick_fox"
    by code_simp
  have b: "list_all (\<lambda>w. words_from_text w \<noteq> []) (words quick_fox)"
    by code_simp
  have c: "words_found_in_order (words quick_fox)
             (join SPLIT_TOKEN (map snd (text_input quick_fox)))"
    by code_simp
  have d: "segments_split_back (text_input quick_fox)"
    by code_simp
  from identity_rewrite_keeps_text[OF a b c d] a b c d
  show ?thesis by simp
qed

subsection \<open>Equality\<close>

text \<open>
  Claim C5 says that two snapshots are equal exactly when their texts are equal and every
  attack attribute of each is present and equal in the other, so that equality is
  symmetric. The loop of \<open>__eq__\<close> visits the keys of the left operand only. The root
  snapshot of \<open>"The quick fox jumps."\<close> and the snapshot its rewrite with no edits returns
  have the same text, index map and modified indices; the second has two more keys. The
  root is equal to the rewritten snapshot, and the rewritten snapshot is not equal to the
  root.
\<close>

theorem eq_ignores_keys_of_other:
  "replace_words_at_indices words_from_text quick_fox [] [] = Inr quick_fox_copy \<and>
   attacked_text_eq quick_fox quick_fox_copy = True \<and>
   attacked_text_eq quick_fox_copy quick_fox = False"
  by code_simp

subsection \<open>The range check of \<open>replace_words_at_indices\<close>\<close>

text \<open>
  Claim C6 says that an edit index outside \<open>[0, len(words))\<close> raises the range error
  \<open>ValueError\<close>. The check of line 213 lets the index \<open>len(words)\<close> through, and the
  assignment of line 215 then raises \<open>IndexError\<close>: for every snapshot and every
  replacement string, the single edit at index \<open>len(words)\<close> ends in \<open>IndexError\<close>.
\<close>

theorem index_len_words_raises_IndexError:
  "replace_words_at_indices wft s [IsInt (int (length (words s)))] [IsStr w] = Inl IndexError"
  by (simp add: replace_words_at_indices_def list_assign_def to_int_def)

subsection \<open>The text window\<close>

text \<open>
  Claim C8 says that the window of size 3 around index 0 of a snapshot of four words is
  the part of the text from the start of word 0 to the end of word 2. The word window is
  \<open>[0, 2]\<close>, but \<open>_text_index_of_word_index\<close> searches each word from the place where the
  word before it starts, not from where it ends, so a repeated word is found at its first
  occurrence again: on \<open>"a a a b"\<close> the window returned is \<open>"a"\<close>, not \<open>"a a a"\<close>.
\<close>

theorem text_window_repeated_word:
  "init words_from_text (TextStr ''a a a b'') AttrsNone = Inr repeated_words \<and>
   word_window 4 0 3 = (0, 2) \<and>
   text_index_of_word_index repeated_words 2 = 0 \<and>
   text_window_around_index repeated_words 0 3 = Inr ''a''"
  by code_simp

subsection \<open>\<open>first_word_diff\<close>\<close>

text \<open>
  Claim C9: when the words of two snapshots differ at some index below the length of the
  shorter list, \<open>first_word_diff\<close> returns the whole list of words of the snapshot it is
  called on; it returns \<open>None\<close> exactly when there is no such index.
\<close>

theorem first_word_diff_returns_word_list:
  "first_word_diff a b =
     (if \<exists>i < min (length (words a)) (length (words b)). words a ! i \<noteq> words b ! i
      then Some (words a) else None)"
  by (auto simp: first_word_diff_def Let_def first_word_diff_loop_eq)

theorem first_word_diff_returns_word_list_witness:
  "(1 < min (length (words quick_fox)) (length (words quick_fox_deleted)) \<and>
    words quick_fox ! 1 \<noteq> words quick_fox_deleted ! 1) \<and>
   first_word_diff quick_fox quick_fox_deleted = Some [''The'', ''quick'', ''fox'', ''jumps''] \<and>
   first_word_diff quick_fox quick_fox_copy = None"
proof -
  have a: "1 < min (length (words quick_fox)) (length (words quick_fox_deleted)) \<and>
    words quick_fox ! 1 \<noteq> words quick_fox_deleted ! 1"
    by code_simp
  then have b: "\<exists>i < min (length (words quick_fox)) (length (words quick_fox_deleted)).
      words quick_fox ! i \<noteq> words quick_fox_deleted ! i"
    by blast
  have c: "\<not> (\<exists>i < min (length (words quick_fox)) (length (words quick_fox_copy)).
      words quick_fox ! i \<noteq> words quick_fox_copy ! i)"
    by (simp add: quick_fox_def quick_fox_copy_def)
  have w: "words quick_fox = [''The'', ''quick'', ''fox'', ''jumps'']"
    by (simp add: quick_fox_def)
  from first_word_diff_returns_word_list[of quick_fox quick_fox_deleted]
    first_word_diff_returns_word_list[of quick_fox quick_fox_copy] a b c w
  show ?thesis by simp
qed

subsection \<open>A pure deletion\<close>

text \<open>
  Claim C10 says that a pure deletion is recorded as a \<open>-1\<close> entry of the index map.
  The map has one entry for each word of the original text, holding the current position
  of that word, and a deletion at position \<open>k\<close> turns into \<open>-1\<close> the entries that are
  equal to \<open>k\<close>. A word that was inserted by an earlier rewrite is the position of no
  original word: in the snapshot with the words \<open>[The, very, slow, fox, jumps]\<close> and the
  map \<open>[0, 1, 3, 4]\<close>, deleting \<open>slow\<close> at index 2 returns the map \<open>[0, 1, 2, 3]\<close>,
  with no \<open>-1\<close> entry at all.
\<close>

theorem pure_deletion_counterexample:
  "words_from_text '''' = [] \<and>
   words quick_fox_inserted ! 2 = ''slow'' \<and>
   original_index_map quick_fox_inserted = [0, 1, 3, 4] \<and>
   map_sum id newly_modified_indices
     (replace_new_words words_from_text quick_fox_inserted ((words quick_fox_inserted)[2 := '''']))
     = Inr (Some {}) \<and>
   map_sum id original_index_map
     (replace_new_words words_from_text quick_fox_inserted ((words quick_fox_inserted)[2 := '''']))
     = Inr [0, 1, 2, 3] \<and>
   map_sum id get_deletion_indices
     (replace_new_words words_from_text quick_fox_inserted ((words quick_fox_inserted)[2 := '''']))
     = Inr []"
  by code_simp

text \<open>
  Claim C10, amended: in a rewrite where the replacement of the word at index \<open>k\<close> has no
  words and every other word is replaced by itself, the snapshot returned has no newly
  modified index, its modified indices are those of the input below \<open>k\<close> and those above
  \<open>k\<close> moved down by one (nothing is added for the word that went away), and in the index
  map the entries equal to \<open>k\<close> become \<open>-1\<close> and the entries above \<open>k\<close> go down by
  one. So the number of \<open>-1\<close> entries grows by the number of entries of the input's map
  that are equal to \<open>k\<close>: the deletion is recorded as a \<open>-1\<close> entry when the deleted word
  is the position of an original word, and not when it is a word that has none. The
  deleted word is one that the tokenizer counts as one word.
\<close>

theorem pure_deletion_not_marked_modified:
  assumes k: "k < length (words s)" and r: "wft r = []"
    and w: "length (wft (words s ! k)) = 1"
    and res: "replace_new_words wft s ((words s)[k := r]) = Inr s'"
  shows "newly_modified_indices s' = Some {} \<and>
         modified_indices s' =
           {j. (j < int k \<and> j \<in> modified_indices s) \<or>
               (j \<ge> int k \<and> j + 1 \<in> modified_indices s)} \<and>
         original_index_map s' =
           map (\<lambda>v. if v = int k then - 1 else if v > int k then v - 1 else v)
             (original_index_map s) \<and>
         length (get_deletion_indices s') =
           length (get_deletion_indices s) + count_list (original_index_map s) (int k)"
proof -
  let ?ws = "words s"
  let ?pre = "zip [0..<k] (zip (take k ?ws) (take k ?ws))"
  let ?post = "zip [Suc k..<length ?ws] (zip (drop (Suc k) ?ws) (drop (Suc k) ?ws))"
  from replace_new_words_Inr[OF res] obtain st where
    l: "rnw_loop wft (rnw_state0 s) (enumerate_zip ?ws (?ws[k := r])) = Inr st"
    and m: "original_index_map s' = new_original_index_map st"
    and mi: "modified_indices s' = new_modified_indices st"
    and nmi: "newly_modified_indices s' = Some (new_newly_modified_indices st)"
    by blast
  from l obtain st1 st2 where
    l1: "rnw_loop wft (rnw_state0 s) ?pre = Inr st1"
    and l2: "rnw_step wft st1 (k, ?ws ! k, r) = Inr st2"
    and l3: "rnw_loop wft st2 ?post = Inr st"
    by (auto simp: enumerate_zip_update[OF k] rnw_loop_append split: sum.splits)
  note a = rnw_loop_same_words[OF l1]
  note c = rnw_loop_same_words[OF l3]
  from w have ne: "wft (?ws ! k) \<noteq> []" by auto
  note b = rnw_step_deletion[OF r l2]
  have n: "new_newly_modified_indices st = {}"
    using a b(1) c by (simp add: rnw_state0_def)
  have s: "new_modified_indices st =
      shifted_modified_indices (modified_indices s) (int k) (- 1)"
    using a b(2) c ne w by (simp add: rnw_state0_def)
  have "new_original_index_map st = new_idx_map (original_index_map s) (int k) (- 1)"
    using a b(3) c ne w by (simp add: rnw_state0_def)
  with m have m': "original_index_map s' =
      map (\<lambda>v. if v = int k then - 1 else if v > int k then v - 1 else v)
        (original_index_map s)"
    by (simp only: new_idx_map_deletion)
  then have "length (get_deletion_indices s') =
      length (get_deletion_indices s) + count_list (original_index_map s) (int k)"
    by (simp only: get_deletion_indices_def deletion_indices_after_deletion)
  moreover have "modified_indices s' =
           {j. (j < int k \<and> j \<in> modified_indices s) \<or>
               (j \<ge> int k \<and> j + 1 \<in> modified_indices s)}"
    using mi s shifted_modified_indices_deletion[of _ "modified_indices s" "int k"] by auto
  ultimately show ?thesis
    using m' n nmi by simp
qed

theorem pure_deletion_not_marked_modified_witness:
  "(1::nat) < length (words quick_fox_inserted) \<and> words_from_text '''' = [] \<and>
   length (words_from_text (words quick_fox_inserted ! 1)) = 1 \<and>
   replace_new_words words_from_text quick_fox_inserted ((words quick_fox_inserted)[1 := ''''])
     = Inr quick_fox_twice \<and>
   newly_modified_indices quick_fox_twice = Some {} \<and>
   modified_indices quick_fox_twice =
     {j. (j < int 1 \<and> j \<in> modified_indices quick_fox_inserted) \<or>
         (j \<ge> int 1 \<and> j + 1 \<in> modified_indices quick_fox_inserted)} \<and>
   original_index_map quick_fox_twice =
     map (\<lambda>v. if v = int 1 then - 1 else if v > int 1 then v - 1 else v)
       (original_index_map quick_fox_inserted) \<and>
   length (get_deletion_indices quick_fox_twice) =
     length (get_deletion_indices quick_fox_inserted) +
     count_list (original_index_map quick_fox_inserted) (int 1) \<and>
   get_deletion_indices quick_fox_inserted = [] \<and>
   get_deletion_indices quick_fox_twice = [- 1]"
proof -
  have a: "(1::nat) < length (words quick_fox_inserted)"
    by code_simp
  have b: "words_from_text '''' = []"
    by code_simp
  have c: "length (words_from_text (words quick_fox_inserted ! 1)) = 1"
    by code_simp
  have d: "replace_new_words words_from_text quick_fox_inserted
             ((words quick_fox_inserted)[1 := '''']) = Inr quick_fox_twice"
    by code_simp
  have e: "get_deletion_indices quick_fox_inserted = []"
    "get_deletion_indices quick_fox_twice = [- 1]"
    by code_simp+
  from pure_deletion_not_marked_modified[OF a b c d] a b c d e
  show ?thesis by blast
qed

section \<open>The rewrite on the store writes into new objects only\<close>

text \<open>After a step, the first \<open>n\<close> objects of the store are what they were.\<close>

lemma set_add_frame:
  "set_add h r v = Inr h' \<Longrightarrow> n \<le> r \<Longrightarrow> take n h' = take n h \<and> length h' = length h"
  by (auto simp: set_add_def split: sum.splits)

lemma mark_loop_st_frame:
  "mark_loop_st k changed h mi nmi ni = (h', res) \<Longrightarrow> n \<le> mi \<Longrightarrow> n \<le> nmi \<Longrightarrow>
     take n h' = take n h \<and> length h' = length h"
proof (induction k arbitrary: h ni)
  case 0
  then show ?case by simp
next
  case (Suc k)
  show ?case
  proof (cases changed)
    case False
    with Suc.prems Suc.IH[of h "ni + 1"] show ?thesis by simp
  next
    case True
    show ?thesis
    proof (cases "set_add h mi ni")
      case (Inl e)
      with True Suc.prems show ?thesis by simp
    next
      case (Inr h1)
      note h1 = set_add_frame[OF Inr Suc.prems(2)]
      show ?thesis
      proof (cases "set_add h1 nmi ni")
        case (Inl e)
        with True Inr Suc.prems h1 show ?thesis by simp
      next
        case (Inr h2)
        note h2 = set_add_frame[OF Inr Suc.prems(3)]
        from True \<open>set_add h mi ni = Inr h1\<close> Inr Suc.prems(1)
        have "mark_loop_st k changed h2 mi nmi (ni + 1) = (h', res)" by simp
        from Suc.IH[OF this Suc.prems(2,3)] h1 h2 show ?thesis by simp
      qed
    qed
  qed
qed

lemma shift_st_frame:
  assumes "shift_st h st i d = (h', res)" and "n \<le> length h"
  shows "take n h' = take n h \<and> length h \<le> length h' \<and>
         (\<forall>st'. res = Inr st' \<longrightarrow>
            n \<le> st_modified_indices st' \<and> n \<le> st_original_index_map st' \<and>
            st_newly_modified_indices st' = st_newly_modified_indices st)"
  using assms
  by (auto simp: shift_st_def new_obj_def Let_def split: sum.splits if_splits)


lemma rnw_step_st_frame:
  assumes step: "rnw_step_st wft h st x = (h', res)" and n: "n \<le> length h"
    and fresh: "fresh_refs n st"
  shows "take n h' = take n h \<and> length h \<le> length h' \<and>
         (\<forall>st'. res = Inr st' \<longrightarrow> fresh_refs n st')"
proof -
  obtain i input_word adv where x: "x = (i, input_word, adv)" by (cases x) auto
  show ?thesis
  proof (cases "str_index (st_original_text st) input_word")
    case (Inl e)
    with step x show ?thesis by (auto simp: rnw_step_st_def)
  next
    case (Inr word_start)
    let ?d = "int (length (wft adv)) - int (length (wft input_word))"
    obtain h1 r1 where sh: "(if ?d \<noteq> 0 then shift_st h st (int i) ?d else (h, Inr st)) = (h1, r1)"
      by (cases "if ?d \<noteq> 0 then shift_st h st (int i) ?d else (h, Inr st)") auto
    have f1: "take n h1 = take n h \<and> length h \<le> length h1 \<and>
              (\<forall>st1. r1 = Inr st1 \<longrightarrow> fresh_refs n st1)"
    proof (cases "?d \<noteq> 0")
      case True
      with sh have "shift_st h st (int i) ?d = (h1, r1)" by simp
      from shift_st_frame[OF this n] fresh show ?thesis by (auto simp: fresh_refs_def)
    next
      case False
      with sh fresh show ?thesis by auto
    qed
    show ?thesis
    proof (cases r1)
      case (Inl e)
      with step x Inr sh f1 show ?thesis by (auto simp: rnw_step_st_def Let_def)
    next
      case r1: (Inr st1)
      with f1 have fr1: "fresh_refs n st1" by simp
      obtain h2 r2 where ml: "mark_loop_st (length (wft adv)) (input_word \<noteq> adv) h1
          (st_modified_indices st1) (st_newly_modified_indices st1) (st_new_i st1) = (h2, r2)"
        by (cases "mark_loop_st (length (wft adv)) (input_word \<noteq> adv) h1
          (st_modified_indices st1) (st_newly_modified_indices st1) (st_new_i st1)") auto
      from mark_loop_st_frame[OF ml, of n] fr1
      have f2: "take n h2 = take n h1 \<and> length h2 = length h1"
        by (simp add: fresh_refs_def)
      from step x Inr sh r1 ml have h': "h' = h2"
        by (auto simp: rnw_step_st_def Let_def split: sum.splits if_splits list.splits)
      have "\<forall>st'. res = Inr st' \<longrightarrow> fresh_refs n st'"
        using step x Inr sh r1 ml fr1
        by (auto simp: rnw_step_st_def Let_def fresh_refs_def
                 split: sum.splits if_splits list.splits)
      with h' f1 f2 show ?thesis by simp
    qed
  qed
qed

lemma rnw_loop_st_frame:
  "rnw_loop_st wft h st xs = (h', res) \<Longrightarrow> n \<le> length h \<Longrightarrow> fresh_refs n st \<Longrightarrow>
     take n h' = take n h \<and> length h \<le> length h'"
proof (induction xs arbitrary: h st)
  case Nil
  then show ?case by simp
next
  case (Cons x xs)
  obtain h1 r1 where s: "rnw_step_st wft h st x = (h1, r1)"
    by (cases "rnw_step_st wft h st x") auto
  note f = rnw_step_st_frame[OF s Cons.prems(2,3)]
  show ?case
  proof (cases r1)
    case (Inl e)
    with Cons.prems(1) s f show ?thesis by auto
  next
    case (Inr st1)
    with Cons.prems(1) s have l: "rnw_loop_st wft h1 st1 xs = (h', res)" by simp
    from f Inr have "n \<le> length h1" "fresh_refs n st1" using Cons.prems(2) by auto
    from Cons.IH[OF l this] f show ?thesis by simp
  qed
qed

lemma init_st_frame:
  "init_st wft h tia aa = (h', res) \<Longrightarrow> n \<le> length h \<Longrightarrow>
     take n h' = take n h \<and> length h \<le> length h'"
  by (auto simp: init_st_def new_obj_def get_list_def Let_def
           split: sum.splits text_input_arg.splits attack_attrs_ref_arg.splits prod.splits)

lemma replace_new_words_st_frame:
  assumes "replace_new_words_st wft h self new_words = (h', res)" and n: "n \<le> length h"
  shows "take n h' = take n h \<and> length h \<le> length h'"
proof (cases "get_text h self")
  case (Inl e)
  with assms show ?thesis by (auto simp: replace_new_words_st_def)
next
  case me: (Inr me)
  let ?h1 = "h @ [SetObj {}]"
  show ?thesis
  proof (cases "get_set ?h1 (modified_indices_ref me)")
    case (Inl e)
    with assms me show ?thesis by (auto simp: replace_new_words_st_def new_obj_def)
  next
    case mi: (Inr mi_self)
    let ?h2 = "?h1 @ [SetObj mi_self]"
    show ?thesis
    proof (cases "get_array ?h2 (original_index_map_ref me)")
      case (Inl e)
      with assms me mi show ?thesis by (auto simp: replace_new_words_st_def new_obj_def)
    next
      case m: (Inr m_self)
      let ?h3 = "?h2 @ [ArrayObj m_self]"
      show ?thesis
      proof (cases "get_list ?h3 (words_ref me)")
        case (Inl e)
        with assms me mi m show ?thesis by (auto simp: replace_new_words_st_def new_obj_def)
      next
        case ws: (Inr ws)
        show ?thesis
        proof (cases "get_list ?h3 new_words")
          case (Inl e)
          with assms me mi m ws show ?thesis by (auto simp: replace_new_words_st_def new_obj_def)
        next
          case nws: (Inr nws)
          let ?st0 = "\<lparr>st_perturbed_text = [],
                       st_original_text = join SPLIT_TOKEN (map snd (obj_text_input me)),
                       st_modified_indices = Suc (length h),
                       st_newly_modified_indices = length h,
                       st_original_index_map = Suc (Suc (length h)),
                       st_new_i = 0\<rparr>"
          obtain h4 r4 where l: "rnw_loop_st wft ?h3 ?st0 (enumerate_zip ws nws) = (h4, r4)"
            by (cases "rnw_loop_st wft ?h3 ?st0 (enumerate_zip ws nws)") auto
          have fr: "fresh_refs n ?st0" using n by (simp add: fresh_refs_def)
          have n3: "n \<le> length ?h3" using n by simp
          from rnw_loop_st_frame[OF l n3 fr] n
          have f4: "take n h4 = take n h" "length h \<le> length h4" by auto
          show ?thesis
          proof (cases r4)
            case (Inl e)
            with assms me mi m ws nws l f4 show ?thesis
              by (auto simp: replace_new_words_st_def new_obj_def)
          next
            case (Inr st)
            with assms(1) me mi m ws nws l obtain tia aa where
              "init_st wft h4 tia aa = (h', res)"
              by (simp add: replace_new_words_st_def new_obj_def Let_def)
            from init_st_frame[OF this, of n] f4 n show ?thesis by simp
          qed
        qed
      qed
    qed
  qed
qed

lemma rwai_loop_st_frame:
  "rwai_loop_st h words_r xs = (h', res) \<Longrightarrow> n \<le> words_r \<Longrightarrow>
     take n h' = take n h \<and> length h' = length h"
proof (induction xs arbitrary: h)
  case Nil
  then show ?case by simp
next
  case (Cons x xs)
  obtain ia wa where x: "x = (ia, wa)" by (cases x) auto
  show ?case
  proof (cases "\<exists>ws'. rwai_loop_st (h[words_r := ListObj ws']) words_r xs = (h', res)")
    case True
    then obtain ws' where "rwai_loop_st (h[words_r := ListObj ws']) words_r xs = (h', res)"
      by blast
    from Cons.IH[OF this Cons.prems(2)] Cons.prems(2) show ?thesis by simp
  next
    case False
    with Cons.prems(1) x have "h' = h"
      by (auto simp: to_int_def split: index_arg.splits word_arg.splits sum.splits if_splits)
    then show ?thesis by simp
  qed
qed

lemma replace_words_at_indices_st_frame:
  assumes "replace_words_at_indices_st wft h self indices new_words = (h', res)"
  shows "take (length h) h' = h \<and> length h \<le> length h'"
proof (cases "length indices \<noteq> length new_words")
  case True
  with assms show ?thesis by (auto simp: replace_words_at_indices_st_def)
next
  case len: False
  show ?thesis
  proof (cases "get_text h self")
    case (Inl e)
    with assms len show ?thesis by (auto simp: replace_words_at_indices_st_def)
  next
    case me: (Inr me)
    show ?thesis
    proof (cases "get_list h (words_ref me)")
      case (Inl e)
      with assms len me show ?thesis by (auto simp: replace_words_at_indices_st_def)
    next
      case ws: (Inr ws)
      let ?h1 = "h @ [ListObj ws]"
      obtain h2 r2 where l: "rwai_loop_st ?h1 (length h) (zip indices new_words) = (h2, r2)"
        by (cases "rwai_loop_st ?h1 (length h) (zip indices new_words)") auto
      from rwai_loop_st_frame[OF l, of "length h"]
      have f2: "take (length h) h2 = h" "length h2 = Suc (length h)" by auto
      show ?thesis
      proof (cases r2)
        case (Inl e)
        with assms len me ws l f2 show ?thesis
          by (auto simp: replace_words_at_indices_st_def new_obj_def)
      next
        case (Inr u)
        with assms len me ws l have
          "replace_new_words_st wft h2 self (length h) = (h', res)"
          by (simp add: replace_words_at_indices_st_def new_obj_def)
        from replace_new_words_st_frame[OF this, of "length h"] f2 show ?thesis by simp
      qed
    qed
  qed
qed

lemma nth_of_prefix:
  assumes "take (length h) h' = h" and "r < length h"
  shows "h' ! r = h ! r"
  using assms by (metis nth_take)

lemma view_of_prefix:
  assumes p: "take (length h) h' = h" and l: "length h \<le> length h'"
    and v: "view h self = Some v"
  shows "view h' self = Some v"
proof -
  from v obtain me where me: "get_text h self = Inr me"
    by (auto simp: view_def split: sum.splits)
  then have s: "self < length h" by (auto simp: get_text_def split: if_splits)
  with me nth_of_prefix[OF p s] l have me': "get_text h' self = Inr me"
    by (auto simp: get_text_def)
  from v me obtain ws m mi where
    g: "get_list h (words_ref me) = Inr ws" "get_array h (original_index_map_ref me) = Inr m"
       "get_set h (modified_indices_ref me) = Inr mi"
    and veq: "v = (joined_text (obj_text_input me), ws, m, mi)"
    by (auto simp: view_def split: sum.splits)
  from g have r: "words_ref me < length h" "original_index_map_ref me < length h"
      "modified_indices_ref me < length h"
    by (auto simp: get_list_def get_array_def get_set_def split: if_splits)
  from g r l nth_of_prefix[OF p r(1)] nth_of_prefix[OF p r(2)] nth_of_prefix[OF p r(3)]
  have "get_list h' (words_ref me) = Inr ws" "get_array h' (original_index_map_ref me) = Inr m"
       "get_set h' (modified_indices_ref me) = Inr mi"
    by (auto simp: get_list_def get_array_def get_set_def)
  with me' veq show ?thesis by (simp add: view_def)
qed

section \<open>The rewrite on the store and the rewrite on values\<close>

lemma extends_nth: "extends h h' \<Longrightarrow> r < length h \<Longrightarrow> h' ! r = h ! r"
  by (auto simp: extends_def intro: nth_of_prefix)

lemma get_list_extends: "extends h h' \<Longrightarrow> get_list h r = Inr x \<Longrightarrow> get_list h' r = Inr x"
  using extends_nth[of h h' r]
  by (auto simp: get_list_def extends_def split: if_splits)

lemma get_set_extends: "extends h h' \<Longrightarrow> get_set h r = Inr x \<Longrightarrow> get_set h' r = Inr x"
  using extends_nth[of h h' r]
  by (auto simp: get_set_def extends_def split: if_splits)

lemma get_array_extends: "extends h h' \<Longrightarrow> get_array h r = Inr x \<Longrightarrow> get_array h' r = Inr x"
  using extends_nth[of h h' r]
  by (auto simp: get_array_def extends_def split: if_splits)

lemma get_text_extends: "extends h h' \<Longrightarrow> get_text h r = Inr x \<Longrightarrow> get_text h' r = Inr x"
  using extends_nth[of h h' r]
  by (auto simp: get_text_def extends_def split: if_splits)

lemma opt_set_at_extends:
  "extends h h' \<Longrightarrow> opt_set_at h ro = Some x \<Longrightarrow> opt_set_at h' ro = Some x"
  by (auto simp: opt_set_at_def get_set_extends split: option.splits sum.splits)


text \<open>What it takes for a reference to stand for a snapshot.\<close>

lemma snapshot_at_Some:
  "snapshot_at h r = Some s \<longleftrightarrow>
     (\<exists>me ws m mi nmi.
        get_text h r = Inr me \<and> get_list h (words_ref me) = Inr ws \<and>
        get_array h (original_index_map_ref me) = Inr m \<and>
        get_set h (modified_indices_ref me) = Inr mi \<and>
        opt_set_at h (newly_modified_indices_ref me) = Some nmi \<and>
        (case previous_attacked_text_ref me of
           None \<Rightarrow> s = AttackedText (obj_text_input me) ws m mi nmi None
         | Some p \<Rightarrow> p < r \<and>
             (\<exists>sp. snapshot_at h p = Some sp \<and>
                   s = AttackedText (obj_text_input me) ws m mi nmi (Some sp))))"
  by (subst snapshot_at.simps) (auto split: sum.splits option.splits)

lemma snapshot_at_extends:
  "extends h h' \<Longrightarrow> snapshot_at h r = Some s \<Longrightarrow> snapshot_at h' r = Some s"
proof (induction r arbitrary: s rule: less_induct)
  case (less r)
  note e = less.prems(1)
  from less.prems(2) obtain me ws m mi nmi where
    me: "get_text h r = Inr me"
    and ws: "get_list h (words_ref me) = Inr ws"
    and m: "get_array h (original_index_map_ref me) = Inr m"
    and mi: "get_set h (modified_indices_ref me) = Inr mi"
    and nmi: "opt_set_at h (newly_modified_indices_ref me) = Some nmi"
    and prev: "case previous_attacked_text_ref me of
           None \<Rightarrow> s = AttackedText (obj_text_input me) ws m mi nmi None
         | Some p \<Rightarrow> p < r \<and>
             (\<exists>sp. snapshot_at h p = Some sp \<and>
                   s = AttackedText (obj_text_input me) ws m mi nmi (Some sp))"
    unfolding snapshot_at_Some[of h r s] by blast
  have prev': "case previous_attacked_text_ref me of
           None \<Rightarrow> s = AttackedText (obj_text_input me) ws m mi nmi None
         | Some p \<Rightarrow> p < r \<and>
             (\<exists>sp. snapshot_at h' p = Some sp \<and>
                   s = AttackedText (obj_text_input me) ws m mi nmi (Some sp))"
  proof (cases "previous_attacked_text_ref me")
    case None
    with prev show ?thesis by simp
  next
    case (Some p)
    with prev obtain sp where p: "p < r" and sp: "snapshot_at h p = Some sp"
      and s: "s = AttackedText (obj_text_input me) ws m mi nmi (Some sp)"
      by auto
    from less.IH[OF p e sp] p s Some show ?thesis by simp
  qed
  show ?case
    unfolding snapshot_at_Some[of h' r s]
    using get_text_extends[OF e me] get_list_extends[OF e ws] get_array_extends[OF e m]
      get_set_extends[OF e mi] opt_set_at_extends[OF e nmi] prev'
    by blast
qed


lemma get_set_valid: "get_set h r = Inr x \<Longrightarrow> r < length h"
  by (auto simp: get_set_def split: if_splits)

lemma get_array_valid: "get_array h r = Inr x \<Longrightarrow> r < length h"
  by (auto simp: get_array_def split: if_splits)

lemma get_set_update:
  "r < length h \<Longrightarrow> get_set (h[r := SetObj x]) a = (if a = r then Inr x else get_set h a)"
  by (auto simp: get_set_def)

lemma get_array_update_set:
  assumes "get_array h a = Inr m" and "get_set h r = Inr y"
  shows "get_array (h[r := SetObj x]) a = Inr m"
proof -
  from assms have "a \<noteq> r"
    by (auto simp: get_array_def get_set_def split: if_splits obj.splits)
  with assms(1) show ?thesis
    by (auto simp: get_array_def split: if_splits)
qed

lemma set_add_eq:
  "get_set h r = Inr x \<Longrightarrow> set_add h r v = Inr (h[r := SetObj (insert v x)])"
  by (simp add: set_add_def)

lemma mark_loop_st_sim:
  assumes "get_set h mi = Inr M" and "get_set h nmi = Inr N" and "mi \<noteq> nmi"
  shows "\<exists>h'. mark_loop_st k c h mi nmi ni = (h', Inr (snd (snd (mark_loop k c (M, N, ni))))) \<and>
           get_set h' mi = Inr (fst (mark_loop k c (M, N, ni))) \<and>
           get_set h' nmi = Inr (fst (snd (mark_loop k c (M, N, ni)))) \<and>
           (\<forall>a m. get_array h a = Inr m \<longrightarrow> get_array h' a = Inr m)"
  using assms
proof (induction k arbitrary: h M N ni)
  case 0
  then show ?case by simp
next
  case (Suc k)
  show ?case
  proof (cases c)
    case False
    with Suc.IH[OF Suc.prems, of "ni + 1"] show ?thesis by simp
  next
    case True
    let ?h1 = "h[mi := SetObj (insert ni M)]"
    let ?h2 = "?h1[nmi := SetObj (insert ni N)]"
    note v = get_set_valid[OF Suc.prems(1)] get_set_valid[OF Suc.prems(2)]
    have a1: "set_add h mi ni = Inr ?h1"
      using Suc.prems(1) by (rule set_add_eq)
    have g1: "get_set ?h1 nmi = Inr N" "get_set ?h1 mi = Inr (insert ni M)"
      using Suc.prems v by (simp_all add: get_set_update)
    have a2: "set_add ?h1 nmi ni = Inr ?h2"
      using g1(1) by (rule set_add_eq)
    have g2: "get_set ?h2 mi = Inr (insert ni M)" "get_set ?h2 nmi = Inr (insert ni N)"
      using Suc.prems(3) v g1 by (simp_all add: get_set_update)
    from Suc.IH[OF g2 Suc.prems(3), of "ni + 1"] obtain h' where
      h': "mark_loop_st k c ?h2 mi nmi (ni + 1) =
             (h', Inr (snd (snd (mark_loop k c (insert ni M, insert ni N, ni + 1)))))"
        "get_set h' mi = Inr (fst (mark_loop k c (insert ni M, insert ni N, ni + 1)))"
        "get_set h' nmi = Inr (fst (snd (mark_loop k c (insert ni M, insert ni N, ni + 1))))"
        "\<forall>a m. get_array ?h2 a = Inr m \<longrightarrow> get_array h' a = Inr m"
      by blast
    have "\<forall>a m. get_array h a = Inr m \<longrightarrow> get_array ?h2 a = Inr m"
      using get_array_update_set[OF _ Suc.prems(1)] get_array_update_set[OF _ g1(1)]
      by blast
    with h' True a1 a2 show ?thesis by simp
  qed
qed

lemma shift_st_sim:
  assumes "state_rel h st pst"
  shows "\<exists>h' st'. shift_st h st i d = (h', Inr st') \<and>
           state_rel h' st'
             (pst\<lparr>new_modified_indices := shifted_modified_indices (new_modified_indices pst) i d,
                  new_original_index_map := new_idx_map (new_original_index_map pst) i d\<rparr>)"
proof -
  from assms have mi: "get_set h (st_modified_indices st) = Inr (new_modified_indices pst)"
    and nmi: "get_set h (st_newly_modified_indices st) = Inr (new_newly_modified_indices pst)"
    and m: "get_array h (st_original_index_map st) = Inr (new_original_index_map pst)"
    by (simp_all add: state_rel_def)
  note v = get_set_valid[OF mi] get_set_valid[OF nmi] get_array_valid[OF m]
  have e1: "extends h (h @ [SetObj {}])" by (simp add: extends_def)
  note mi1 = get_set_extends[OF e1 mi]
  show ?thesis
    using assms v mi1
    by (auto simp: shift_st_def new_obj_def Let_def state_rel_def new_idx_map_def
          get_set_def get_array_def nth_append nth_list_update split: if_splits obj.splits)
qed


text \<open>One round of the loop on the store does what the round on values does.\<close>

lemma rnw_step_st_sim:
  assumes rel: "state_rel h st pst" and step: "rnw_step_st wft h st x = (h', res)"
  shows "case res of
           Inl e \<Rightarrow> rnw_step wft pst x = Inl e
         | Inr st' \<Rightarrow> (\<exists>pst'. rnw_step wft pst x = Inr pst' \<and> state_rel h' st' pst')"
proof -
  obtain i input_word adv where x: "x = (i, input_word, adv)" by (cases x) auto
  from rel have tx: "st_original_text st = original_text pst"
      "st_perturbed_text st = perturbed_text pst" "st_new_i st = new_i pst"
    by (simp_all add: state_rel_def)
  show ?thesis
  proof (cases "str_index (original_text pst) input_word")
    case (Inl e)
    with step x tx show ?thesis by (auto simp: rnw_step_st_def rnw_step_def)
  next
    case (Inr word_start)
    let ?n = "length (wft adv)"
    let ?d = "int ?n - int (length (wft input_word))"
    let ?pst1 = "if ?d \<noteq> 0
        then pst\<lparr>new_modified_indices :=
                   shifted_modified_indices (new_modified_indices pst) (int i) ?d,
                 new_original_index_map := new_idx_map (new_original_index_map pst) (int i) ?d\<rparr>
        else pst"
    have "\<exists>h1 st1. (if ?d \<noteq> 0 then shift_st h st (int i) ?d else (h, Inr st)) = (h1, Inr st1)
            \<and> state_rel h1 st1 ?pst1"
    proof (cases "?d \<noteq> 0")
      case True
      with shift_st_sim[OF rel, of "int i" ?d] show ?thesis by simp
    next
      case False
      with rel show ?thesis by simp
    qed
    then obtain h1 st1 where
      sh: "(if ?d \<noteq> 0 then shift_st h st (int i) ?d else (h, Inr st)) = (h1, Inr st1)"
      and rel1: "state_rel h1 st1 ?pst1"
      by blast
    let ?M = "new_modified_indices ?pst1"
    let ?N = "new_newly_modified_indices ?pst1"
    let ?ml = "mark_loop ?n (input_word \<noteq> adv) (?M, ?N, new_i pst)"
    from rel1 have g: "get_set h1 (st_modified_indices st1) = Inr ?M"
        "get_set h1 (st_newly_modified_indices st1) = Inr ?N"
        "st_modified_indices st1 \<noteq> st_newly_modified_indices st1"
        "get_array h1 (st_original_index_map st1) = Inr (new_original_index_map ?pst1)"
        "st_new_i st1 = new_i pst" "st_perturbed_text st1 = perturbed_text pst"
        "st_original_text st1 = original_text pst"
      by (simp_all add: state_rel_def split: if_splits)
    from mark_loop_st_sim[OF g(1,2,3), of ?n "input_word \<noteq> adv" "new_i pst"] obtain h2 where
      ml: "mark_loop_st ?n (input_word \<noteq> adv) h1 (st_modified_indices st1)
              (st_newly_modified_indices st1) (st_new_i st1) = (h2, Inr (snd (snd ?ml)))"
      and g2: "get_set h2 (st_modified_indices st1) = Inr (fst ?ml)"
        "get_set h2 (st_newly_modified_indices st1) = Inr (fst (snd ?ml))"
        "get_array h2 (st_original_index_map st1) = Inr (new_original_index_map ?pst1)"
      using g(4,5) by auto
    let ?pst2 = "pst\<lparr>new_modified_indices := fst ?ml,
                      new_newly_modified_indices := fst (snd ?ml),
                      new_original_index_map := new_original_index_map ?pst1\<rparr>"
    have rel2: "state_rel h2 st1 ?pst2"
      using g g2 by (simp add: state_rel_def)
    have m1: "new_original_index_map ?pst1 =
        (if ?d \<noteq> 0 then new_idx_map (new_original_index_map pst) (int i) ?d
         else new_original_index_map pst)"
      by simp
    have M1: "?M = (if ?d \<noteq> 0
         then shifted_modified_indices (new_modified_indices pst) (int i) ?d
         else new_modified_indices pst)"
      and N1: "?N = new_newly_modified_indices pst"
      by simp_all
    obtain a b c where abc: "?ml = (a, b, c)" by (cases ?ml) auto
    define mv where "mv = new_original_index_map ?pst1"
    have pure: "rnw_step wft pst x =
      (let perturbed = perturbed_text pst @ take word_start (original_text pst);
           original = drop (word_start + length input_word) (original_text pst);
           st' = pst\<lparr>new_modified_indices := a, new_newly_modified_indices := b,
                     new_original_index_map := mv, new_i := c\<rparr>
       in if ?n = 0 then
            (if i = 0 then
               (case original of
                  [] \<Rightarrow> Inl IndexError
                | ch # cs \<Rightarrow>
                    Inr (st'\<lparr>perturbed_text := perturbed @ adv,
                             original_text := (if ch = CHR '' '' then cs else original)\<rparr>))
             else
               (if perturbed = [] then Inl IndexError
                else Inr (st'\<lparr>perturbed_text :=
                                 (if last perturbed = CHR '' '' then butlast perturbed
                                  else perturbed) @ adv,
                               original_text := original\<rparr>)))
          else Inr (st'\<lparr>perturbed_text := perturbed @ adv, original_text := original\<rparr>))"
      using Inr abc unfolding x rnw_step_def M1 N1 m1 mv_def
      by (auto simp: Let_def split: list.splits)
    have store: "rnw_step_st wft h st x =
      (let perturbed = perturbed_text pst @ take word_start (original_text pst);
           original = drop (word_start + length input_word) (original_text pst);
           st' = st1\<lparr>st_new_i := c\<rparr>
       in if ?n = 0 then
            (if i = 0 then
               (case original of
                  [] \<Rightarrow> (h2, Inl IndexError)
                | ch # cs \<Rightarrow>
                    (h2, Inr (st'\<lparr>st_perturbed_text := perturbed @ adv,
                                  st_original_text := (if ch = CHR '' '' then cs else original)\<rparr>)))
             else
               (if perturbed = [] then (h2, Inl IndexError)
                else (h2, Inr (st'\<lparr>st_perturbed_text :=
                                     (if last perturbed = CHR '' '' then butlast perturbed
                                      else perturbed) @ adv,
                                   st_original_text := original\<rparr>))))
          else (h2, Inr (st'\<lparr>st_perturbed_text := perturbed @ adv,
                             st_original_text := original\<rparr>)))"
      using Inr sh ml abc unfolding x rnw_step_st_def tx
      by (auto simp: Let_def split: list.splits)
    from rel2 abc have rel3: "get_set h2 (st_modified_indices st1) = Inr a"
        "get_set h2 (st_newly_modified_indices st1) = Inr b"
        "get_array h2 (st_original_index_map st1) = Inr mv"
        "st_modified_indices st1 \<noteq> st_newly_modified_indices st1"
      by (simp_all add: state_rel_def mv_def)
    show ?thesis
      using step rel3 unfolding store pure
      by (auto simp: Let_def state_rel_def split: if_splits list.splits)
  qed
qed


lemma rnw_loop_st_sim:
  assumes "state_rel h st pst" and "rnw_loop_st wft h st xs = (h', res)"
  shows "case res of
           Inl e \<Rightarrow> rnw_loop wft pst xs = Inl e
         | Inr st' \<Rightarrow> (\<exists>pst'. rnw_loop wft pst xs = Inr pst' \<and> state_rel h' st' pst')"
  using assms
proof (induction xs arbitrary: h st pst)
  case Nil
  then show ?case by auto
next
  case (Cons x xs)
  obtain h1 r1 where s: "rnw_step_st wft h st x = (h1, r1)"
    by (cases "rnw_step_st wft h st x") auto
  note sim = rnw_step_st_sim[OF Cons.prems(1) s]
  show ?case
  proof (cases r1)
    case (Inl e)
    with sim s Cons.prems(2) show ?thesis by auto
  next
    case (Inr st1)
    with sim obtain pst1 where p: "rnw_step wft pst x = Inr pst1" and r: "state_rel h1 st1 pst1"
      by auto
    from Cons.prems(2) s Inr have "rnw_loop_st wft h1 st1 xs = (h', res)" by simp
    from Cons.IH[OF r this] p show ?thesis by (auto split: sum.splits)
  qed
qed

lemma get_text_valid: "get_text h r = Inr me \<Longrightarrow> r < length h"
  by (auto simp: get_text_def split: if_splits)

lemma snapshot_at_valid: "snapshot_at h r = Some s \<Longrightarrow> r < length h"
  unfolding snapshot_at_Some[of h r s] by (auto dest: get_text_valid)

text \<open>The constructor, called as \<open>replace_new_words\<close> calls it.\<close>

lemma init_st_sim:
  assumes m: "get_array h mr = Inr m" and mi: "get_set h mir = Inr mi"
    and nmi: "get_set h nmir = Inr nmi" and self: "snapshot_at h self = Some s"
    and i: "init_st wft h (TextDict d) (AttrsDictRef (Some mr) (Some mir) (Some nmir) (Some self))
              = (h', res)"
  shows "map_sum id (snapshot_at h') res =
           map_sum id Some (init wft (TextDict d) (AttrsDict (Some m) (Some mi) (Some nmi) (Some s)))"
proof -
  let ?ti = "map (\<lambda>(k, v). (k, strip v)) d"
  let ?ws = "wft (joined_text ?ti)"
  let ?r = "Suc (Suc (Suc (length h)))"
  let ?me = "TextObj ?ti (length h) mr mir (Some nmir) (Some self)"
  let ?h' = "h @ [ListObj ?ws, ArrayObj (arange (length ?ws)), SetObj {}, ?me]"
  from i have h': "h' = ?h'" and res: "res = Inr ?r"
    by (auto simp: init_st_def new_obj_def get_list_def Let_def)
  have e: "extends h ?h'" by (simp add: extends_def)
  have t: "get_text ?h' ?r = Inr ?me"
    by (simp add: get_text_def nth_append)
  have w: "get_list ?h' (length h) = Inr ?ws"
    by (simp add: get_list_def nth_append)
  note g = get_array_extends[OF e m] get_set_extends[OF e mi] get_set_extends[OF e nmi]
    snapshot_at_extends[OF e self]
  from snapshot_at_valid[OF self] have lt: "self < ?r" by simp
  have o: "opt_set_at ?h' (Some nmir) = Some (Some nmi)"
    using g(3) by (simp add: opt_set_at_def)
  have "snapshot_at ?h' ?r = Some (AttackedText ?ti ?ws m mi (Some nmi) (Some s))"
    apply (subst snapshot_at_Some)
    apply (rule exI[of _ ?me])
    apply (rule exI[of _ ?ws])
    apply (rule exI[of _ m])
    apply (rule exI[of _ mi])
    apply (rule exI[of _ "Some nmi"])
    using t w g(1,2,4) o lt apply simp
    done
  with h' res show ?thesis
    by (simp add: init_def Let_def)
qed


lemma replace_new_words_st_sim:
  assumes self: "snapshot_at h self = Some s" and nw: "get_list h new_words = Inr nws"
    and run: "replace_new_words_st wft h self new_words = (h', res)"
  shows "map_sum id (snapshot_at h') res = map_sum id Some (replace_new_words wft s nws)"
proof -
  from self obtain me ws m mi where
    me: "get_text h self = Inr me"
    and ws: "get_list h (words_ref me) = Inr ws"
    and m: "get_array h (original_index_map_ref me) = Inr m"
    and mi: "get_set h (modified_indices_ref me) = Inr mi"
    and s: "text_input s = obj_text_input me" "words s = ws" "original_index_map s = m"
      "modified_indices s = mi"
    unfolding snapshot_at_Some[of h self s] by (auto split: option.splits)
  let ?h3 = "h @ [SetObj {}, SetObj mi, ArrayObj m]"
  let ?st0 = "\<lparr>st_perturbed_text = [],
               st_original_text = join SPLIT_TOKEN (map snd (obj_text_input me)),
               st_modified_indices = Suc (length h),
               st_newly_modified_indices = length h,
               st_original_index_map = Suc (Suc (length h)),
               st_new_i = 0\<rparr>"
  have e1: "extends h (h @ [SetObj {}])" and e2: "extends h (h @ [SetObj {}, SetObj mi])"
    and e3: "extends h ?h3"
    by (simp_all add: extends_def)
  note mi1 = get_set_extends[OF e1 mi]
  note m2 = get_array_extends[OF e2 m]
  note ws3 = get_list_extends[OF e3 ws]
  note nw3 = get_list_extends[OF e3 nw]
  obtain h4 r4 where l: "rnw_loop_st wft ?h3 ?st0 (enumerate_zip ws nws) = (h4, r4)"
    by (cases "rnw_loop_st wft ?h3 ?st0 (enumerate_zip ws nws)") auto
  have unfold: "replace_new_words_st wft h self new_words =
      (case r4 of
         Inl e \<Rightarrow> (h4, Inl e)
       | Inr st \<Rightarrow>
           init_st wft h4
             (TextDict (zip (map fst (obj_text_input me))
                         (split (st_perturbed_text st @ st_original_text st) SPLIT_TOKEN)))
             (AttrsDictRef (Some (st_original_index_map st)) (Some (st_modified_indices st))
                (Some (st_newly_modified_indices st)) (Some self)))"
    using me mi1 m2 ws3 nw3 l
    by (simp add: replace_new_words_st_def new_obj_def Let_def split: sum.splits)
  have rel0: "state_rel ?h3 ?st0 (rnw_state0 s)"
    using s by (simp add: state_rel_def rnw_state0_def get_set_def get_array_def nth_append)
  note sim = rnw_loop_st_sim[OF rel0 l]
  have fr: "fresh_refs (length h) ?st0" by (simp add: fresh_refs_def)
  from rnw_loop_st_frame[OF l _ fr] have e4: "extends h h4"
    by (simp add: extends_def)
  show ?thesis
  proof (cases r4)
    case (Inl e)
    with sim run unfold s show ?thesis
      by (auto simp: replace_new_words_def)
  next
    case (Inr st)
    with sim obtain pst where
      p: "rnw_loop wft (rnw_state0 s) (enumerate_zip ws nws) = Inr pst"
      and rel: "state_rel h4 st pst"
      by auto
    from rel have g: "get_array h4 (st_original_index_map st) = Inr (new_original_index_map pst)"
      "get_set h4 (st_modified_indices st) = Inr (new_modified_indices pst)"
      "get_set h4 (st_newly_modified_indices st) = Inr (new_newly_modified_indices pst)"
      and tx: "st_perturbed_text st = perturbed_text pst" "st_original_text st = original_text pst"
      by (simp_all add: state_rel_def)
    from run unfold Inr have i: "init_st wft h4
             (TextDict (zip (map fst (obj_text_input me))
                         (split (st_perturbed_text st @ st_original_text st) SPLIT_TOKEN)))
             (AttrsDictRef (Some (st_original_index_map st)) (Some (st_modified_indices st))
                (Some (st_newly_modified_indices st)) (Some self)) = (h', res)"
      by simp
    from init_st_sim[OF g snapshot_at_extends[OF e4 self] i] p s tx show ?thesis
      by (simp add: replace_new_words_def Let_def)
  qed
qed

lemma get_list_update:
  "r < length h \<Longrightarrow> get_list (h[r := ListObj x]) r = Inr x"
  by (simp add: get_list_def)

lemma get_list_valid: "get_list h r = Inr x \<Longrightarrow> r < length h"
  by (auto simp: get_list_def split: if_splits)

lemma rwai_loop_st_sim:
  assumes "get_list h words_r = Inr ws" and "rwai_loop_st h words_r xs = (h', res)"
  shows "case res of
           Inl e \<Rightarrow> rwai_loop ws xs = Inl e
         | Inr u \<Rightarrow> (\<exists>ws'. rwai_loop ws xs = Inr ws' \<and> get_list h' words_r = Inr ws')"
  using assms
proof (induction xs arbitrary: h ws)
  case Nil
  then show ?case by auto
next
  case (Cons x xs)
  obtain ia wa where x: "x = (ia, wa)" by (cases x) auto
  note v = get_list_valid[OF Cons.prems(1)]
  show ?case
  proof (cases "\<exists>i w ws'. to_int ia = Inr i \<and> wa = IsStr w \<and> \<not> (i < 0 \<or> i > int (length ws)) \<and>
                  list_assign ws i w = Inr ws'")
    case True
    then obtain i w ws' where c: "to_int ia = Inr i" "wa = IsStr w"
        "\<not> (i < 0 \<or> i > int (length ws))" "list_assign ws i w = Inr ws'"
      by blast
    with Cons.prems x have run: "rwai_loop_st (h[words_r := ListObj ws']) words_r xs = (h', res)"
      by simp
    from Cons.IH[OF get_list_update[OF v] run] c x show ?thesis
      by (auto split: sum.splits)
  next
    case False
    with Cons.prems x show ?thesis
      by (auto split: sum.splits word_arg.splits if_splits)
  qed
qed

text \<open>The rewrite on the store returns the snapshot, or raises the error, that the rewrite
  on values returns or raises.\<close>

lemma replace_words_at_indices_st_sim:
  assumes self: "snapshot_at h self = Some s"
    and run: "replace_words_at_indices_st wft h self indices new_words = (h', res)"
  shows "map_sum id (snapshot_at h') res =
           map_sum id Some (replace_words_at_indices wft s indices new_words)"
proof (cases "length indices \<noteq> length new_words")
  case True
  with run show ?thesis
    by (auto simp: replace_words_at_indices_st_def replace_words_at_indices_def)
next
  case len: False
  from self obtain me where
    me: "get_text h self = Inr me"
    and ws: "get_list h (words_ref me) = Inr (words s)"
    unfolding snapshot_at_Some[of h self s] by (auto split: option.splits)
  let ?h1 = "h @ [ListObj (words s)]"
  obtain h2 r2 where l: "rwai_loop_st ?h1 (length h) (zip indices new_words) = (h2, r2)"
    by (cases "rwai_loop_st ?h1 (length h) (zip indices new_words)") auto
  have g1: "get_list ?h1 (length h) = Inr (words s)"
    by (simp add: get_list_def)
  note sim = rwai_loop_st_sim[OF g1 l]
  from rwai_loop_st_frame[OF l, of "length h"] have e2: "extends h h2"
    by (simp add: extends_def)
  show ?thesis
  proof (cases r2)
    case (Inl e)
    with sim run len me ws l show ?thesis
      by (auto simp: replace_words_at_indices_st_def replace_words_at_indices_def new_obj_def)
  next
    case (Inr u)
    with sim obtain ws' where p: "rwai_loop (words s) (zip indices new_words) = Inr ws'"
      and g2: "get_list h2 (length h) = Inr ws'"
      by auto
    from run len me ws l Inr have
      "replace_new_words_st wft h2 self (length h) = (h', res)"
      by (simp add: replace_words_at_indices_st_def new_obj_def)
    from replace_new_words_st_sim[OF snapshot_at_extends[OF e2 self] g2 this] p len
    show ?thesis
      by (simp add: replace_words_at_indices_def)
  qed
qed

subsection \<open>The input of a rewrite\<close>

text \<open>
  Claim C7: whether \<open>replace_words_at_indices\<close> returns a new snapshot or raises, the
  snapshot it was called on is as it was: every object that was in the store before the
  call is unchanged after it (the call writes only into objects it has created), so the
  joined text, the words, the index map and the modified indices read from the input
  snapshot are the same after the call, and the reference of the input stands for the
  same snapshot. The call on the store is the call on values: it returns a reference that
  stands for the snapshot the rewrite on values returns, or raises the same error.
\<close>

theorem rewrite_leaves_input_untouched:
  assumes "replace_words_at_indices_st wft h self indices new_words = (h', res)"
  shows "take (length h) h' = h \<and>
         (view h self = Some v \<longrightarrow> view h' self = Some v) \<and>
         (snapshot_at h self = Some s \<longrightarrow>
            snapshot_at h' self = Some s \<and>
            map_sum id (snapshot_at h') res =
              map_sum id Some (replace_words_at_indices wft s indices new_words))"
proof -
  from replace_words_at_indices_st_frame[OF assms]
  have p: "take (length h) h' = h" and l: "length h \<le> length h'" by auto
  then have e: "extends h h'" by (simp add: extends_def)
  from view_of_prefix[OF p l] p snapshot_at_extends[OF e]
    replace_words_at_indices_st_sim[OF _ assms]
  show ?thesis by blast
qed

theorem rewrite_leaves_input_untouched_witness:
  "snapshot_at quick_fox_store 3 = Some quick_fox \<and>
   view quick_fox_store 3 =
     Some (''The quick fox jumps.'', [''The'', ''quick'', ''fox'', ''jumps''], [0, 1, 2, 3], {}) \<and>
   snd (replace_words_at_indices_st words_from_text quick_fox_store 3
          [IsInt 1] [IsStr ''very slow'']) = Inr 13 \<and>
   take (length quick_fox_store)
     (fst (replace_words_at_indices_st words_from_text quick_fox_store 3
             [IsInt 1] [IsStr ''very slow''])) = quick_fox_store \<and>
   view (fst (replace_words_at_indices_st words_from_text quick_fox_store 3
                [IsInt 1] [IsStr ''very slow''])) 3 =
     Some (''The quick fox jumps.'', [''The'', ''quick'', ''fox'', ''jumps''], [0, 1, 2, 3], {}) \<and>
   snapshot_at (fst (replace_words_at_indices_st words_from_text quick_fox_store 3
                       [IsInt 1] [IsStr ''very slow''])) 3 = Some quick_fox \<and>
   snapshot_at (fst (replace_words_at_indices_st words_from_text quick_fox_store 3
                       [IsInt 1] [IsStr ''very slow''])) 13 = Some quick_fox_inserted \<and>
   snd (replace_words_at_indices_st words_from_text quick_fox_store 3
          [IsInt 1, IsInt 4] [IsStr '''', IsStr ''x'']) = Inl IndexError \<and>
   take (length quick_fox_store)
     (fst (replace_words_at_indices_st words_from_text quick_fox_store 3
             [IsInt 1, IsInt 4] [IsStr '''', IsStr ''x''])) = quick_fox_store \<and>
   view (fst (replace_words_at_indices_st words_from_text quick_fox_store 3
                [IsInt 1, IsInt 4] [IsStr '''', IsStr ''x''])) 3 =
     Some (''The quick fox jumps.'', [''The'', ''quick'', ''fox'', ''jumps''], [0, 1, 2, 3], {}) \<and>
   snapshot_at (fst (replace_words_at_indices_st words_from_text quick_fox_store 3
                       [IsInt 1, IsInt 4] [IsStr '''', IsStr ''x''])) 3 = Some quick_fox"
proof -
  let ?ok = "replace_words_at_indices_st words_from_text quick_fox_store 3
               [IsInt 1] [IsStr ''very slow'']"
  let ?err = "replace_words_at_indices_st words_from_text quick_fox_store 3
                [IsInt 1, IsInt 4] [IsStr '''', IsStr ''x'']"
  let ?v = "(''The quick fox jumps.'', [''The'', ''quick'', ''fox'', ''jumps''],
             [0, 1, 2, 3 :: int], {} :: int set)"
  have a: "snd ?ok = Inr 13" by code_simp
  have b: "snd ?err = Inl IndexError" by code_simp
  have c: "view quick_fox_store 3 = Some ?v" by code_simp
  have d: "snapshot_at quick_fox_store 3 = Some quick_fox" by code_simp
  have e: "replace_words_at_indices words_from_text quick_fox [IsInt 1] [IsStr ''very slow'']
             = Inr quick_fox_inserted"
    by code_simp
  have "?ok = (fst ?ok, snd ?ok)" "?err = (fst ?err, snd ?err)" by simp_all
  from rewrite_leaves_input_untouched[OF this(1), of ?v quick_fox]
       rewrite_leaves_input_untouched[OF this(2), of ?v quick_fox] a b c d e
  show ?thesis by simp
qed

end
